theory Spec2Isabelle
  imports Main "HOL-Library.AList"
begin

section \<open>Text: the string operations of index.py\<close>

text \<open>
  A Python \<open>str\<close> is a sequence of code points. The model reads a \<open>char\<close> as one
  code point below 256, so a \<open>string\<close> is a Python string whose characters are all
  below U+0100. The three character classes and the lowercasing below are the ones
  Python's \<open>str.isspace\<close>, \<open>re\<close> (\<open>\s\<close>, \<open>\d\<close>, \<open>\w\<close> on a \<open>str\<close>
  pattern) and \<open>str.lower\<close> use on these code points.
\<close>

definition isspace :: "char \<Rightarrow> bool" where
  "isspace c = (let n = (of_char c :: nat) in
     (9 \<le> n \<and> n \<le> 13) \<or> (28 \<le> n \<and> n \<le> 32) \<or> n = 133 \<or> n = 160)"

definition isdecimal :: "char \<Rightarrow> bool" where
  "isdecimal c = (let n = (of_char c :: nat) in 48 \<le> n \<and> n \<le> 57)"

definition isword :: "char \<Rightarrow> bool" where
  "isword c = (let n = (of_char c :: nat) in
     (48 \<le> n \<and> n \<le> 57) \<or> (65 \<le> n \<and> n \<le> 90) \<or> n = 95 \<or> (97 \<le> n \<and> n \<le> 122) \<or>
     n = 170 \<or> n = 178 \<or> n = 179 \<or> n = 181 \<or> n = 185 \<or> n = 186 \<or>
     (188 \<le> n \<and> n \<le> 190) \<or> (192 \<le> n \<and> n \<le> 214) \<or> (216 \<le> n \<and> n \<le> 246) \<or>
     248 \<le> n)"

definition lower_char :: "char \<Rightarrow> char" where
  "lower_char c = (let n = (of_char c :: nat) in
     if (65 \<le> n \<and> n \<le> 90) \<or> (192 \<le> n \<and> n \<le> 214) \<or> (216 \<le> n \<and> n \<le> 222)
     then char_of (n + 32) else c)"

text \<open>\<open>s.lower()\<close>\<close>

definition lower :: "string \<Rightarrow> string" where
  "lower s = map lower_char s"

text \<open>\<open>s.strip()\<close>: whitespace removed at both ends.\<close>

definition strip :: "string \<Rightarrow> string" where
  "strip s = rev (dropWhile isspace (rev (dropWhile isspace s)))"

text \<open>
  \<open>s.split(d)\<close> for a one-character separator: never the empty list, and the empty
  string splits into one empty piece.
\<close>

fun split_on :: "char \<Rightarrow> string \<Rightarrow> string list" where
  "split_on d [] = [[]]"
| "split_on d (c # cs) =
     (if c = d then [] # split_on d cs
      else (case split_on d cs of w # ws \<Rightarrow> (c # w) # ws | [] \<Rightarrow> [[c]]))"

text \<open>\<open>os.path.basename\<close> and \<open>os.path.join\<close> of two components (posixpath).\<close>

definition basename :: "string \<Rightarrow> string" where
  "basename p = rev (takeWhile (\<lambda>c. c \<noteq> CHR ''/'') (rev p))"

definition path_join :: "string \<Rightarrow> string \<Rightarrow> string" where
  "path_join a b =
     (case b of
        c # _ \<Rightarrow>
          if c = CHR ''/'' then b
          else if a = [] \<or> last a = CHR ''/'' then a @ b
          else a @ ''/'' @ b
      | [] \<Rightarrow> if a = [] \<or> last a = CHR ''/'' then a else a @ ''/'')"

section \<open>Regular expressions: the fragment of \<open>re\<close> the pattern table uses\<close>

text \<open>
  A pattern is kept as its syntax tree. \<open>Many a\<close> is the greedy \<open>a*\<close> of a
  one-character item, \<open>Alt\<close> tries its left branch first, \<open>Group n\<close> is the
  n-th capturing group (counted by opening parenthesis, from 1), \<open>WordB\<close> is \<open>\b\<close>.
\<close>

datatype atom = Lit char | Digit | Space

fun atom_ok :: "atom \<Rightarrow> char \<Rightarrow> bool" where
  "atom_ok (Lit a) c = (c = a)"
| "atom_ok Digit c = isdecimal c"
| "atom_ok Space c = isspace c"

datatype regex =
    Eps
  | One atom
  | Many atom
  | Seq regex regex
  | Alt regex regex
  | Group nat regex
  | WordB

text \<open>
  The matcher's position: the character before it (none at the start of the text),
  the text still to read, and the groups captured so far.
\<close>

record mstate =
  prev :: "char option"
  rest :: string
  caps :: "nat \<Rightarrow> string option"

definition advance :: "mstate \<Rightarrow> char \<Rightarrow> string \<Rightarrow> mstate" where
  "advance s c cs = s\<lparr>prev := Some c, rest := cs\<rparr>"

text \<open>The positions a greedy repetition can stop at, longest first.\<close>

fun many :: "atom \<Rightarrow> char option \<Rightarrow> string \<Rightarrow> (char option \<times> string) list" where
  "many a p [] = [(p, [])]"
| "many a p (c # cs) =
     (if atom_ok a c then many a (Some c) cs @ [(p, c # cs)] else [(p, c # cs)])"

definition at_boundary :: "char option \<Rightarrow> string \<Rightarrow> bool" where
  "at_boundary p cs =
     ((case p of None \<Rightarrow> False | Some c \<Rightarrow> isword c) \<noteq>
      (case cs of [] \<Rightarrow> False | c # _ \<Rightarrow> isword c))"

text \<open>
  Every way the pattern matches at this position, in the order a backtracking matcher
  tries them: the head of the list is the match \<open>re\<close> reports.
\<close>

fun matches :: "regex \<Rightarrow> mstate \<Rightarrow> mstate list" where
  "matches Eps s = [s]"
| "matches (One a) s =
     (case rest s of [] \<Rightarrow> [] | c # cs \<Rightarrow> if atom_ok a c then [advance s c cs] else [])"
| "matches (Many a) s = map (\<lambda>(p, cs). s\<lparr>prev := p, rest := cs\<rparr>) (many a (prev s) (rest s))"
| "matches (Seq r1 r2) s = concat (map (matches r2) (matches r1 s))"
| "matches (Alt r1 r2) s = matches r1 s @ matches r2 s"
| "matches (Group n r) s =
     map (\<lambda>s'. s'\<lparr>caps := (caps s')(n \<mapsto> take (length (rest s) - length (rest s')) (rest s))\<rparr>)
       (matches r s)"
| "matches WordB s = (if at_boundary (prev s) (rest s) then [s] else [])"

text \<open>\<open>re.search\<close>: the first start position, left to right, with a match.\<close>

fun search_from :: "regex \<Rightarrow> char option \<Rightarrow> string \<Rightarrow> mstate option" where
  "search_from r p [] =
     (case matches r \<lparr>prev = p, rest = [], caps = \<lambda>_. None\<rparr> of
        m # _ \<Rightarrow> Some m
      | [] \<Rightarrow> None)"
| "search_from r p (c # cs) =
     (case matches r \<lparr>prev = p, rest = c # cs, caps = \<lambda>_. None\<rparr> of
        m # _ \<Rightarrow> Some m
      | [] \<Rightarrow> search_from r (Some c) cs)"

definition re_search :: "regex \<Rightarrow> string \<Rightarrow> mstate option" where
  "re_search r txt = search_from r None txt"

text \<open>\<open>len(match.groups())\<close>: the number of capturing groups of the pattern.\<close>

fun ngroups :: "regex \<Rightarrow> nat" where
  "ngroups (Seq r1 r2) = ngroups r1 + ngroups r2"
| "ngroups (Alt r1 r2) = ngroups r1 + ngroups r2"
| "ngroups (Group n r) = Suc (ngroups r)"
| "ngroups r = 0"

subsection \<open>Writing patterns\<close>

definition lit :: "string \<Rightarrow> regex" where
  "lit s = foldr (\<lambda>c r. Seq (One (Lit c)) r) s Eps"

definition cat :: "regex list \<Rightarrow> regex" where
  "cat rs = foldr Seq rs Eps"

fun alts :: "regex \<Rightarrow> regex list \<Rightarrow> regex" where
  "alts r [] = r"
| "alts r (x # xs) = Alt r (alts x xs)"

definition opt :: "regex \<Rightarrow> regex" where
  "opt r = Alt r Eps"

definition many1 :: "atom \<Rightarrow> regex" where
  "many1 a = Seq (One a) (Many a)"

section \<open>OCRParameterModel\<close>

subsection \<open>The pattern table\<close>

text \<open>\<^verbatim>\<open>\d+(?:\.\d+)?\<close>\<close>

definition number :: regex where
  "number = cat [many1 Digit, opt (cat [lit ''.'', many1 Digit])]"

text \<open>\<^verbatim>\<open>cm|m|inch|ft|mm\<close>\<close>

definition length_unit :: regex where
  "length_unit = alts (lit ''cm'') [lit ''m'', lit ''inch'', lit ''ft'', lit ''mm'']"

text \<open>\<^verbatim>\<open>(\d+(?:\.\d+)?)\s*(?:v|volt|kV|mV)(?:s)?\b\<close>\<close>

definition voltage_re :: regex where
  "voltage_re = cat [Group 1 number, Many Space,
     alts (lit ''v'') [lit ''volt'', lit ''kV'', lit ''mV''], opt (lit ''s''), WordB]"

text \<open>\<^verbatim>\<open>(\d+(?:\.\d+)?)\s*(g|kg|lbs?|oz|mg)\b\<close>\<close>

definition weight_unit :: regex where
  "weight_unit =
     alts (lit ''g'') [lit ''kg'', cat [lit ''lb'', opt (lit ''s'')], lit ''oz'', lit ''mg'']"

definition weight_re :: regex where
  "weight_re = cat [Group 1 number, Many Space, Group 2 weight_unit, WordB]"

text \<open>\<^verbatim>\<open>(\d+(?:\.\d+)?)\s*(cm|m|inch|ft|mm)\b\<close>\<close>

definition height_re :: regex where
  "height_re = cat [Group 1 number, Many Space, Group 2 length_unit, WordB]"

text \<open>\<^verbatim>\<open>(\d+(?:\.\d+)?)\s*(ml|l|fl\s?oz|gal)\b\<close>\<close>

definition volume_unit :: regex where
  "volume_unit =
     alts (lit ''ml'') [lit ''l'', cat [lit ''fl'', opt (One Space), lit ''oz''], lit ''gal'']"

definition volume_re :: regex where
  "volume_re = cat [Group 1 number, Many Space, Group 2 volume_unit, WordB]"

text \<open>\<^verbatim>\<open>(\d+(?:\.\d+)?)\s*(w|watt|mw)(?:s)?\b\<close>\<close>

definition wattage_unit :: regex where
  "wattage_unit = alts (lit ''w'') [lit ''watt'', lit ''mw'']"

definition wattage_re :: regex where
  "wattage_re = cat [Group 1 number, Many Space, Group 2 wattage_unit, opt (lit ''s''), WordB]"

text \<open>\<^verbatim>\<open>(?:depth|d):\s*(\d+(?:\.\d+)?)\s*(cm|m|inch|ft|mm)\b\<close>\<close>

definition depth_re :: regex where
  "depth_re = cat [alts (lit ''depth'') [lit ''d''], lit '':'', Many Space,
     Group 1 number, Many Space, Group 2 length_unit, WordB]"

text \<open>\<^verbatim>\<open>(?:width|w):\s*(\d+(?:\.\d+)?)\s*(cm|m|inch|ft|mm)\b\<close>\<close>

definition width_re :: regex where
  "width_re = cat [alts (lit ''width'') [lit ''w''], lit '':'', Many Space,
     Group 1 number, Many Space, Group 2 length_unit, WordB]"

text \<open>\<^verbatim>\<open>(?:max(?:imum)?\s*weight|weight\s*capacity):\s*(\d+(?:\.\d+)?)\s*(kg|lbs?)\b\<close>\<close>

definition max_weight_unit :: regex where
  "max_weight_unit = alts (lit ''kg'') [cat [lit ''lb'', opt (lit ''s'')]]"

definition max_weight_re :: regex where
  "max_weight_re = cat [
     alts (cat [lit ''max'', opt (lit ''imum''), Many Space, lit ''weight''])
       [cat [lit ''weight'', Many Space, lit ''capacity'']],
     lit '':'', Many Space,
     Group 1 number, Many Space, Group 2 max_weight_unit, WordB]"

text \<open>\<open>self.parameter_patterns\<close>, and \<open>.get\<close> on it.\<close>

definition pattern_table :: "(string \<times> regex) list" where
  "pattern_table =
     [(''voltage'', voltage_re),
      (''weight'', weight_re),
      (''height'', height_re),
      (''volume'', volume_re),
      (''wattage'', wattage_re),
      (''depth'', depth_re),
      (''width'', width_re),
      (''max_weight'', max_weight_re)]"

definition parameter_patterns :: "string \<Rightarrow> regex option" where
  "parameter_patterns = map_of pattern_table"

subsection \<open>extract_parameter\<close>

text \<open>
  Exceptions are values. \<open>IndexError\<close> is what \<open>match.group(1)\<close> raises on a pattern
  with no group, \<open>ValueError\<close> what assigning a column of the wrong length raises, and
  \<open>Raised name\<close> stands for an exception coming out of an external library.
\<close>

datatype exn = IndexError | ValueError | Raised string

text \<open>How an f-string prints a group: a group that took no part in the match is \<open>None\<close>.\<close>

definition fmt :: "string option \<Rightarrow> string" where
  "fmt g = (case g of None \<Rightarrow> ''None'' | Some w \<Rightarrow> w)"

text \<open>Lines 47 to 51: search the lowercased text and format the groups of the match.\<close>

definition match_pattern :: "regex \<Rightarrow> string \<Rightarrow> exn + string option" where
  "match_pattern pattern text =
     (case re_search pattern (lower text) of
        None \<Rightarrow> Inr None
      | Some m \<Rightarrow>
          if ngroups pattern = 2
          then Inr (Some (strip (fmt (caps m 1) @ '' '' @ fmt (caps m 2))))
          else if ngroups pattern = 0 then Inl IndexError
          else Inr (Some (strip (fmt (caps m 1) @ '' '' @ ''''))))"

definition extract_parameter :: "string \<Rightarrow> string \<Rightarrow> exn + string option" where
  "extract_parameter text parameter_type =
     (case parameter_patterns (lower parameter_type) of
        None \<Rightarrow> Inr None
      | Some pattern \<Rightarrow> match_pattern pattern text)"

subsection \<open>detect_parameters\<close>

text \<open>
  A Python dict keeps its keys in insertion order, and storing under a key it already
  has keeps the key's place: an association list under \<open>AList.update\<close>.
\<close>

type_synonym dict = "(string \<times> string) list"

type_synonym ('box, 'conf) span = "'box option \<times> string \<times> 'conf option"

text \<open>The inner loop, over \<open>params_to_find\<close>, for one span's text.\<close>

fun scan_params :: "string \<Rightarrow> string list \<Rightarrow> dict \<Rightarrow> exn + dict" where
  "scan_params text [] parameters = Inr parameters"
| "scan_params text (param_type # ps) parameters =
     (case extract_parameter text param_type of
        Inl e \<Rightarrow> Inl e
      | Inr result \<Rightarrow>
          scan_params text ps
            (case result of
               None \<Rightarrow> parameters
             | Some r \<Rightarrow> if r \<noteq> [] then AList.update param_type r parameters else parameters))"

text \<open>The outer loop, over \<open>text_results\<close>.\<close>

fun scan_spans :: "('box, 'conf) span list \<Rightarrow> string list \<Rightarrow> dict \<Rightarrow> exn + dict" where
  "scan_spans [] ps parameters = Inr parameters"
| "scan_spans ((b, text, c) # spans) ps parameters =
     (case scan_params text ps parameters of
        Inl e \<Rightarrow> Inl e
      | Inr d \<Rightarrow> scan_spans spans ps d)"

definition detect_parameters :: "('box, 'conf) span list \<Rightarrow> string list \<Rightarrow> exn + dict" where
  "detect_parameters text_results params_to_find = scan_spans text_results params_to_find []"

subsection \<open>The external collaborators\<close>

text \<open>
  What the code calls and does not define, as functions of their arguments: the HTTP
  request (its status code, or the exception it raises), writing the response body to a
  file, \<open>cv2.imread\<close> (no image when the file cannot be read), the grey-scale
  conversion with Otsu's threshold, and the two recognition engines. Each call that can
  raise returns a sum.
\<close>

record ('img, 'box, 'conf) world =
  http_get :: "string \<Rightarrow> exn + nat"
  save_body :: "string \<Rightarrow> string \<Rightarrow> exn + unit"
  imread :: "string \<Rightarrow> 'img option"
  binarize :: "'img \<Rightarrow> exn + 'img"
  readtext :: "'img \<Rightarrow> exn + ('box \<times> string \<times> 'conf) list"
  image_to_string :: "'img \<Rightarrow> exn + string"

subsection \<open>load_image, preprocess_image, detect_text, predict\<close>

definition load_image :: "('img, 'box, 'conf) world \<Rightarrow> string \<Rightarrow> 'img option" where
  "load_image w image_path = imread w image_path"

definition preprocess_image :: "('img, 'box, 'conf) world \<Rightarrow> 'img \<Rightarrow> exn + 'img" where
  "preprocess_image w img = binarize w img"

text \<open>Engine A's triples as they stand, then one triple for each non-blank line of engine B.\<close>

definition detect_text ::
  "('img, 'box, 'conf) world \<Rightarrow> 'img \<Rightarrow> exn + ('box, 'conf) span list" where
  "detect_text w img =
     (case readtext w img of
        Inl e \<Rightarrow> Inl e
      | Inr easyocr_results \<Rightarrow>
          (case image_to_string w img of
             Inl e \<Rightarrow> Inl e
           | Inr tesseract_results \<Rightarrow>
               Inr (map (\<lambda>(b, t, c). (Some b, t, Some c)) easyocr_results @
                    map (\<lambda>t. (None, t, None))
                      (filter (\<lambda>t. strip t \<noteq> []) (split_on CHR 0x0A tesseract_results)))))"

definition predict ::
  "('img, 'box, 'conf) world \<Rightarrow> string \<Rightarrow> string list \<Rightarrow> exn + dict option" where
  "predict w image_path params_to_find =
     (case load_image w image_path of
        None \<Rightarrow> Inr None
      | Some img \<Rightarrow>
          (case preprocess_image w img of
             Inl e \<Rightarrow> Inl e
           | Inr preprocessed \<Rightarrow>
               (case detect_text w preprocessed of
                  Inl e \<Rightarrow> Inl e
                | Inr text_results \<Rightarrow>
                    (case detect_parameters text_results params_to_find of
                       Inl e \<Rightarrow> Inl e
                     | Inr parameters \<Rightarrow> Inr (Some parameters)))))"

section \<open>The batch functions\<close>

subsection \<open>download_image\<close>

text \<open>Every exception inside the \<open>try\<close> gives \<open>None\<close>, and so does a status other than 200.\<close>

definition download_image ::
  "('img, 'box, 'conf) world \<Rightarrow> string \<Rightarrow> string \<Rightarrow> string option" where
  "download_image w image_url save_dir =
     (let image_name = path_join save_dir (basename image_url) in
      case http_get w image_url of
        Inl e \<Rightarrow> None
      | Inr status_code \<Rightarrow>
          if status_code = 200
          then (case save_body w image_url image_name of
                  Inl e \<Rightarrow> None
                | Inr u \<Rightarrow> Some image_name)
          else None)"

subsection \<open>process_image\<close>

text \<open>\<open>entity_mapping.get(entity_name, entity_name)\<close>\<close>

definition get_or_self :: "(string \<Rightarrow> string option) \<Rightarrow> string \<Rightarrow> string" where
  "get_or_self entity_mapping entity_name =
     (case entity_mapping entity_name of None \<Rightarrow> entity_name | Some t \<Rightarrow> t)"

text \<open>
  \<open>if image_path\<close> holds for a path that is there and not empty, \<open>if image_predictions\<close>
  for a dict that is there and not empty; \<open>list(d.values())[0]\<close> is then the value
  stored first.
\<close>

definition process_image ::
  "('img, 'box, 'conf) world \<Rightarrow> string \<Rightarrow> string \<Rightarrow> string \<Rightarrow> (string \<Rightarrow> string option)
     \<Rightarrow> exn + string" where
  "process_image w image_url image_dir entity_name entity_mapping =
     (case download_image w image_url image_dir of
        None \<Rightarrow> Inr ''No result''
      | Some image_path \<Rightarrow>
          if image_path = [] then Inr ''No result''
          else
            (let param_type = get_or_self entity_mapping entity_name in
             case predict w image_path [param_type] of
               Inl e \<Rightarrow> Inl e
             | Inr None \<Rightarrow> Inr ''No result''
             | Inr (Some image_predictions) \<Rightarrow>
                 (case image_predictions of
                    [] \<Rightarrow> Inr ''No result''
                  | (k, v) # kvs \<Rightarrow> Inr v)))"

subsection \<open>process_chunk\<close>

record row =
  image_link :: string
  entity_name :: string

text \<open>
  The pool runs one task for each row; \<open>as_completed\<close> hands the futures back in the
  order they finish. That order is the argument \<open>order\<close>: the positions of the rows,
  each once, in finishing order. \<open>future.result()\<close> returns the task's value or raises
  what the task raised.
\<close>

definition valid_order :: "nat \<Rightarrow> nat list \<Rightarrow> bool" where
  "valid_order n order = (distinct order \<and> length order = n \<and> list_all (\<lambda>i. i < n) order)"

fun gather :: "(exn + string) list \<Rightarrow> nat list \<Rightarrow> exn + string list" where
  "gather futures [] = Inr []"
| "gather futures (i # order) =
     (case futures ! i of
        Inl e \<Rightarrow> Inl e
      | Inr r \<Rightarrow> (case gather futures order of Inl e \<Rightarrow> Inl e | Inr results \<Rightarrow> Inr (r # results)))"

text \<open>
  The chunk with its new \<open>predictions\<close> column: each row paired with the result at its
  position. Pandas raises \<open>ValueError\<close> for a column whose length is not the chunk's.
\<close>

definition process_chunk ::
  "('img, 'box, 'conf) world \<Rightarrow> nat list \<Rightarrow> row list \<Rightarrow> string \<Rightarrow> (string \<Rightarrow> string option)
     \<Rightarrow> exn + (row \<times> string) list" where
  "process_chunk w order chunk image_dir entity_mapping =
     (let futures =
            map (\<lambda>r. process_image w (image_link r) image_dir (entity_name r) entity_mapping) chunk
      in case gather futures order of
           Inl e \<Rightarrow> Inl e
         | Inr results \<Rightarrow>
             if length results = length chunk then Inr (zip chunk results) else Inl ValueError)"

subsection \<open>main: the entity mapping\<close>

definition entity_table :: "(string \<times> string) list" where
  "entity_table =
     [(''item_weight'', ''weight''),
      (''item_volume'', ''volume''),
      (''max_weight_recommendation'', ''max_weight''),
      (''height'', ''height''),
      (''width'', ''width''),
      (''voltage'', ''voltage''),
      (''wattage'', ''wattage''),
      (''depth'', ''depth'')]"

definition entity_mapping :: "string \<Rightarrow> string option" where
  "entity_mapping = map_of entity_table"

section \<open>extract_parameter on texts beyond U+00FF\<close>

text \<open>
  The same function on Python strings given as lists of code points. Below 256 a code
  point is the character above; from U+0100 to U+017F (Latin Extended-A) every code
  point is a letter, none is whitespace or a decimal digit, and \<open>str.lower\<close> and
  \<open>str.upper\<close> are as below. Code points from U+0180 on are outside this model.
\<close>

definition isspace_u :: "nat \<Rightarrow> bool" where
  "isspace_u n = (n < 256 \<and> isspace (char_of n))"

definition isdecimal_u :: "nat \<Rightarrow> bool" where
  "isdecimal_u n = (n < 256 \<and> isdecimal (char_of n))"

definition isword_u :: "nat \<Rightarrow> bool" where
  "isword_u n = (if n < 256 then isword (char_of n) else n < 384)"

text \<open>
  \<open>c.lower()\<close> of one character. In Latin Extended-A the capital letters are the even
  code points of three runs and the odd ones of two; U+0130 lowercases to two code points
  and U+0178 to U+00FF.
\<close>

definition lower_cp :: "nat \<Rightarrow> nat list" where
  "lower_cp n =
     (if n < 256 then [of_char (lower_char (char_of n))]
      else if n = 304 then [105, 775]
      else if n = 376 then [255]
      else if ((256 \<le> n \<and> n \<le> 302) \<or> (306 \<le> n \<and> n \<le> 310) \<or> (330 \<le> n \<and> n \<le> 374)) \<and> even n
        then [n + 1]
      else if ((313 \<le> n \<and> n \<le> 327) \<or> (377 \<le> n \<and> n \<le> 381)) \<and> odd n
        then [n + 1]
      else [n])"


definition lower_u :: "nat list \<Rightarrow> nat list" where
  "lower_u s = concat (map lower_cp s)"


definition strip_u :: "nat list \<Rightarrow> nat list" where
  "strip_u s = rev (dropWhile isspace_u (rev (dropWhile isspace_u s)))"

text \<open>An 8-bit string as a list of code points.\<close>

definition codes :: "string \<Rightarrow> nat list" where
  "codes s = map of_char s"

fun atom_ok_u :: "atom \<Rightarrow> nat \<Rightarrow> bool" where
  "atom_ok_u (Lit a) c = (c = of_char a)"
| "atom_ok_u Digit c = isdecimal_u c"
| "atom_ok_u Space c = isspace_u c"

record mstate_u =
  prev_u :: "nat option"
  rest_u :: "nat list"
  caps_u :: "nat \<Rightarrow> nat list option"

fun many_u :: "atom \<Rightarrow> nat option \<Rightarrow> nat list \<Rightarrow> (nat option \<times> nat list) list" where
  "many_u a p [] = [(p, [])]"
| "many_u a p (c # cs) =
     (if atom_ok_u a c then many_u a (Some c) cs @ [(p, c # cs)] else [(p, c # cs)])"

definition at_boundary_u :: "nat option \<Rightarrow> nat list \<Rightarrow> bool" where
  "at_boundary_u p cs =
     ((case p of None \<Rightarrow> False | Some c \<Rightarrow> isword_u c) \<noteq>
      (case cs of [] \<Rightarrow> False | c # _ \<Rightarrow> isword_u c))"

fun matches_u :: "regex \<Rightarrow> mstate_u \<Rightarrow> mstate_u list" where
  "matches_u Eps s = [s]"
| "matches_u (One a) s =
     (case rest_u s of
        [] \<Rightarrow> []
      | c # cs \<Rightarrow> if atom_ok_u a c then [s\<lparr>prev_u := Some c, rest_u := cs\<rparr>] else [])"
| "matches_u (Many a) s =
     map (\<lambda>(p, cs). s\<lparr>prev_u := p, rest_u := cs\<rparr>) (many_u a (prev_u s) (rest_u s))"
| "matches_u (Seq r1 r2) s = concat (map (matches_u r2) (matches_u r1 s))"
| "matches_u (Alt r1 r2) s = matches_u r1 s @ matches_u r2 s"
| "matches_u (Group n r) s =
     map (\<lambda>s'. s'\<lparr>caps_u :=
                 (caps_u s')(n \<mapsto> take (length (rest_u s) - length (rest_u s')) (rest_u s))\<rparr>)
       (matches_u r s)"
| "matches_u WordB s = (if at_boundary_u (prev_u s) (rest_u s) then [s] else [])"

fun search_from_u :: "regex \<Rightarrow> nat option \<Rightarrow> nat list \<Rightarrow> mstate_u option" where
  "search_from_u r p [] =
     (case matches_u r \<lparr>prev_u = p, rest_u = [], caps_u = \<lambda>_. None\<rparr> of
        m # _ \<Rightarrow> Some m
      | [] \<Rightarrow> None)"
| "search_from_u r p (c # cs) =
     (case matches_u r \<lparr>prev_u = p, rest_u = c # cs, caps_u = \<lambda>_. None\<rparr> of
        m # _ \<Rightarrow> Some m
      | [] \<Rightarrow> search_from_u r (Some c) cs)"

definition re_search_u :: "regex \<Rightarrow> nat list \<Rightarrow> mstate_u option" where
  "re_search_u r s = search_from_u r None s"

definition fmt_u :: "nat list option \<Rightarrow> nat list" where
  "fmt_u g = (case g of None \<Rightarrow> codes ''None'' | Some w \<Rightarrow> w)"

definition match_pattern_u :: "regex \<Rightarrow> nat list \<Rightarrow> exn + nat list option" where
  "match_pattern_u pattern s =
     (case re_search_u pattern (lower_u s) of
        None \<Rightarrow> Inr None
      | Some m \<Rightarrow>
          if ngroups pattern = 2
          then Inr (Some (strip_u (fmt_u (caps_u m 1) @ codes '' '' @ fmt_u (caps_u m 2))))
          else if ngroups pattern = 0 then Inl IndexError
          else Inr (Some (strip_u (fmt_u (caps_u m 1) @ codes '' '' @ []))))"

definition parameter_patterns_u :: "nat list \<Rightarrow> regex option" where
  "parameter_patterns_u = map_of (map (\<lambda>(k, r). (codes k, r)) pattern_table)"

definition extract_parameter_u :: "nat list \<Rightarrow> nat list \<Rightarrow> exn + nat list option" where
  "extract_parameter_u s parameter_type =
     (case parameter_patterns_u (lower_u parameter_type) of
        None \<Rightarrow> Inr None
      | Some pattern \<Rightarrow> match_pattern_u pattern s)"

section \<open>Notions the properties are stated with\<close>


text \<open>A position of the matcher on characters, as a position of the matcher on code points.\<close>

definition wide :: "mstate \<Rightarrow> mstate_u" where
  "wide s = \<lparr>prev_u = map_option of_char (prev s), rest_u = codes (rest s),
            caps_u = (\<lambda>n. map_option codes (caps s n))\<rparr>"

text \<open>
  What the test \<open>if result\<close> of detect_parameters lets through: the value extracted
  from one text for one type, when there is one and it is not the empty string.
\<close>

definition found :: "string \<Rightarrow> string \<Rightarrow> string option" where
  "found text t =
     (case extract_parameter text t of
        Inr (Some r) \<Rightarrow> if r \<noteq> [] then Some r else None
      | _ \<Rightarrow> None)"

text \<open>The values the spans yield for a type, in span order, and the last of them.\<close>

definition hits :: "string \<Rightarrow> ('box, 'conf) span list \<Rightarrow> string list" where
  "hits t spans = List.map_filter (\<lambda>(b, text, c). found text t) spans"

definition last_hit :: "string \<Rightarrow> ('box, 'conf) span list \<Rightarrow> string option" where
  "last_hit t spans = (case hits t spans of [] \<Rightarrow> None | h # hs \<Rightarrow> Some (last (h # hs)))"

text \<open>A world whose preprocessing and recognition engines never raise.\<close>

definition quiet :: "('img, 'box, 'conf) world \<Rightarrow> bool" where
  "quiet w = (\<forall>img. (\<exists>x. binarize w img = Inr x) \<and> (\<exists>x. readtext w img = Inr x) \<and>
                 (\<exists>x. image_to_string w img = Inr x))"

subsection \<open>What a pattern can consume and capture\<close>

text \<open>
  The strings a pattern can consume, leaving \<open>\b\<close> aside: every match of the matcher
  consumes one of them.
\<close>

fun lang :: "regex \<Rightarrow> string set" where
  "lang Eps = {[]}"
| "lang (One a) = {[c] | c. atom_ok a c}"
| "lang (Many a) = {w. list_all (atom_ok a) w}"
| "lang (Seq r1 r2) = {u @ v | u v. u \<in> lang r1 \<and> v \<in> lang r2}"
| "lang (Alt r1 r2) = lang r1 \<union> lang r2"
| "lang (Group n r) = lang r"
| "lang WordB = {[]}"

text \<open>The capturing groups of a pattern with their bodies, and those every match sets.\<close>

fun subgroups :: "regex \<Rightarrow> (nat \<times> regex) set" where
  "subgroups (Seq r1 r2) = subgroups r1 \<union> subgroups r2"
| "subgroups (Alt r1 r2) = subgroups r1 \<union> subgroups r2"
| "subgroups (Group n r) = insert (n, r) (subgroups r)"
| "subgroups r = {}"

fun sure :: "regex \<Rightarrow> nat set" where
  "sure (Seq r1 r2) = sure r1 \<union> sure r2"
| "sure (Alt r1 r2) = sure r1 \<inter> sure r2"
| "sure (Group n r) = insert n (sure r)"
| "sure r = {}"

text \<open>A string that is not empty and has no whitespace at either end.\<close>

definition tight :: "string \<Rightarrow> bool" where
  "tight w = (w \<noteq> [] \<and> \<not> isspace (hd w) \<and> \<not> isspace (last w))"

text \<open>
  The voltage pattern without its two alternatives spelled with a capital letter:
  \<^verbatim>\<open>(\d+(?:\.\d+)?)\s*(?:v|volt)(?:s)?\b\<close>
\<close>

definition voltage_lower_re :: regex where
  "voltage_lower_re = cat [Group 1 number, Many Space,
     alts (lit ''v'') [lit ''volt''], opt (lit ''s''), WordB]"

subsection \<open>Example worlds and rows\<close>

text \<open>
  An image is named by its path. The URL of image b answers 404, every other URL 200;
  engine A reads nothing; engine B reads two lines on image a and nothing elsewhere.
\<close>

definition example_world :: "(string, unit, unit) world" where
  "example_world =
     \<lparr>http_get = (\<lambda>url. if url = ''http://shop.example/b.jpg'' then Inr 404 else Inr 200),
      save_body = (\<lambda>url path. Inr ()),
      imread = (\<lambda>path. Some path),
      binarize = (\<lambda>img. Inr img),
      readtext = (\<lambda>img. Inr []),
      image_to_string = (\<lambda>img. if img = ''/content/images/a.jpg''
                          then Inr (''Net Wt'' @ [CHR 0x0A] @ ''5 kg'' @ [CHR 0x0A]) else Inr [])\<rparr>"

text \<open>The same world with an engine A that raises, and with one that reads a single blank.\<close>

definition raising_world :: "(string, unit, unit) world" where
  "raising_world = example_world\<lparr>readtext := (\<lambda>img. Inl (Raised ''RuntimeError''))\<rparr>"

definition blank_world :: "(string, unit, unit) world" where
  "blank_world = example_world\<lparr>readtext := (\<lambda>img. Inr [((), '' '', ())])\<rparr>"

definition row_a :: row where
  "row_a = \<lparr>image_link = ''http://shop.example/a.jpg'', entity_name = ''item_weight''\<rparr>"

definition row_b :: row where
  "row_b = \<lparr>image_link = ''http://shop.example/b.jpg'', entity_name = ''item_weight''\<rparr>"

section \<open>Lemmas\<close>

subsection \<open>Lowercasing and stripping\<close>

lemma of_char_lower_char:
  "of_char (lower_char c) =
     (let n = (of_char c :: nat) in
      if (65 \<le> n \<and> n \<le> 90) \<or> (192 \<le> n \<and> n \<le> 214) \<or> (216 \<le> n \<and> n \<le> 222)
      then n + 32 else n)"
  by (auto simp: lower_char_def Let_def)


lemma strip_empty_iff: "strip t = [] \<longleftrightarrow> list_all isspace t"
proof
  assume "strip t = []"
  then have a: "\<forall>c\<in>set (dropWhile isspace t). isspace c"
    by (simp add: strip_def dropWhile_eq_Nil_conv)
  have "dropWhile isspace t = []"
  proof (rule ccontr)
    assume n: "dropWhile isspace t \<noteq> []"
    then have "\<not> isspace (hd (dropWhile isspace t))" by (rule hd_dropWhile)
    moreover have "hd (dropWhile isspace t) \<in> set (dropWhile isspace t)" using n by simp
    ultimately show False using a by blast
  qed
  then show "list_all isspace t" by (simp add: dropWhile_eq_Nil_conv list_all_iff)
next
  assume "list_all isspace t"
  then show "strip t = []"
    by (auto simp: strip_def list_all_iff dest: set_dropWhileD)
qed

subsection \<open>No call of extract_parameter raises\<close>

lemma ngroups_patterns:
  "ngroups voltage_re = 1" "ngroups weight_re = 2" "ngroups height_re = 2"
  "ngroups volume_re = 2" "ngroups wattage_re = 2" "ngroups depth_re = 2"
  "ngroups width_re = 2" "ngroups max_weight_re = 2"
  by code_simp+

lemma ngroups_table: "(t, p) \<in> set pattern_table \<Longrightarrow> ngroups p = 1 \<or> ngroups p = 2"
  by (auto simp: pattern_table_def ngroups_patterns)

lemma match_pattern_total: "ngroups p \<noteq> 0 \<Longrightarrow> \<exists>r. match_pattern p s = Inr r"
  by (simp add: match_pattern_def split: option.split)

lemma extract_parameter_total: "\<exists>r. extract_parameter s t = Inr r"
proof (cases "parameter_patterns (lower t)")
  case None
  then show ?thesis by (simp add: extract_parameter_def)
next
  case (Some p)
  then have "(lower t, p) \<in> set pattern_table"
    by (simp add: parameter_patterns_def map_of_SomeD)
  then have "ngroups p \<noteq> 0" using ngroups_table by fastforce
  with Some show ?thesis by (simp add: extract_parameter_def match_pattern_total)
qed

subsection \<open>What the two loops of detect_parameters leave in the dict\<close>

lemma scan_params_map:
  "\<exists>d'. scan_params s ps d = Inr d' \<and>
     (\<forall>t. map_of d' t =
        (if t \<in> set ps then (case found s t of None \<Rightarrow> map_of d t | Some r \<Rightarrow> Some r)
         else map_of d t))"
proof (induction ps arbitrary: d)
  case Nil
  then show ?case by simp
next
  case (Cons p ps)
  obtain r where r: "extract_parameter s p = Inr r"
    using extract_parameter_total by blast
  define d1 where "d1 = (case r of None \<Rightarrow> d
     | Some x \<Rightarrow> if x \<noteq> [] then AList.update p x d else d)"
  from Cons.IH [of d1] obtain d' where d': "scan_params s ps d1 = Inr d'"
    and m: "\<And>t. map_of d' t =
        (if t \<in> set ps then (case found s t of None \<Rightarrow> map_of d1 t | Some r \<Rightarrow> Some r)
         else map_of d1 t)"
    by blast
  have st: "scan_params s (p # ps) d = Inr d'"
    using r d' by (simp add: d1_def)
  have d1: "\<And>t. map_of d1 t =
      (if t = p then (case found s p of None \<Rightarrow> map_of d p | Some x \<Rightarrow> Some x) else map_of d t)"
    using r by (auto simp: d1_def found_def update_conv' split: option.splits)
  show ?case using st m d1 by (auto split: option.splits)
qed

lemma hits_Cons:
  "hits t ((b, s, c) # spans) =
     (case found s t of None \<Rightarrow> hits t spans | Some r \<Rightarrow> r # hits t spans)"
  by (simp add: hits_def map_filter_simps split: option.splits)

lemma scan_spans_map:
  "\<exists>d'. scan_spans spans ps d = Inr d' \<and>
     (\<forall>t. map_of d' t =
        (if t \<in> set ps then (case last_hit t spans of None \<Rightarrow> map_of d t | Some r \<Rightarrow> Some r)
         else map_of d t))"
proof (induction spans arbitrary: d)
  case Nil
  then show ?case by (simp add: last_hit_def hits_def map_filter_simps)
next
  case (Cons sp spans)
  obtain b s c where sp: "sp = (b, s, c)" by (cases sp) auto
  from scan_params_map [of s ps d] obtain d1 where d1: "scan_params s ps d = Inr d1"
    and m1: "\<And>t. map_of d1 t =
        (if t \<in> set ps then (case found s t of None \<Rightarrow> map_of d t | Some r \<Rightarrow> Some r)
         else map_of d t)"
    by blast
  from Cons.IH [of d1] obtain d' where d': "scan_spans spans ps d1 = Inr d'"
    and m: "\<And>t. map_of d' t =
        (if t \<in> set ps then (case last_hit t spans of None \<Rightarrow> map_of d1 t | Some r \<Rightarrow> Some r)
         else map_of d1 t)"
    by blast
  have st: "scan_spans (sp # spans) ps d = Inr d'"
    using d1 d' by (simp add: sp)
  have l: "\<And>t. last_hit t (sp # spans) =
      (case last_hit t spans of None \<Rightarrow> found s t | Some r \<Rightarrow> Some r)"
    by (auto simp: last_hit_def sp hits_Cons split: option.splits list.splits)
  show ?case using st m m1 l by (auto split: option.splits)
qed

lemma detect_parameters_total: "\<exists>d. detect_parameters spans ps = Inr d"
  using scan_spans_map [of spans ps "[]"] by (auto simp: detect_parameters_def)

subsection \<open>A quiet world: no row raises\<close>

lemma detect_text_quiet: "quiet w \<Longrightarrow> \<exists>spans. detect_text w img = Inr spans"
  unfolding quiet_def detect_text_def
  by (metis (no_types, lifting) sum.case(2))

lemma predict_quiet:
  assumes "quiet w"
  shows "\<exists>r. predict w p ps = Inr r"
proof (cases "load_image w p")
  case None
  then show ?thesis by (simp add: predict_def)
next
  case (Some img)
  from assms obtain pre where pre: "preprocess_image w img = Inr pre"
    by (auto simp: quiet_def preprocess_image_def)
  from detect_text_quiet [OF assms] obtain spans where sp: "detect_text w pre = Inr spans"
    by blast
  from detect_parameters_total obtain d where d: "detect_parameters spans ps = Inr d"
    by blast
  show ?thesis using Some pre sp d by (simp add: predict_def)
qed

lemma process_image_quiet:
  assumes "quiet w"
  shows "\<exists>r. process_image w url dir n m = Inr r"
proof (cases "download_image w url dir")
  case None
  then show ?thesis by (simp add: process_image_def)
next
  case (Some p)
  from predict_quiet [OF assms] obtain r where "predict w p [get_or_self m n] = Inr r"
    by blast
  with Some show ?thesis
    by (simp add: process_image_def split: option.split list.split)
qed

lemma gather_all:
  assumes "\<forall>i<length fs. \<exists>r. fs ! i = Inr r" and "list_all (\<lambda>i. i < length fs) order"
  shows "\<exists>rs. gather fs order = Inr rs \<and> length rs = length order \<and>
           (\<forall>k<length order. fs ! (order ! k) = Inr (rs ! k))"
  using assms(2)
proof (induction order)
  case Nil
  then show ?case by simp
next
  case (Cons i order)
  then have i: "i < length fs" and rest: "list_all (\<lambda>i. i < length fs) order" by simp_all
  from assms(1) i obtain r where r: "fs ! i = Inr r" by blast
  from Cons.IH [OF rest] obtain rs where rs: "gather fs order = Inr rs"
    "length rs = length order" "\<forall>k<length order. fs ! (order ! k) = Inr (rs ! k)"
    by blast
  have "\<forall>k<length (i # order). fs ! ((i # order) ! k) = Inr ((r # rs) ! k)"
    using r rs(3) by (auto simp: nth_Cons split: nat.split)
  with r rs show ?case by simp
qed

text \<open>
  In a quiet world process_chunk returns the rows in their order, and the result at
  position \<open>k\<close> is the result of the row that finished \<open>k\<close>-th.
\<close>

lemma process_chunk_quiet:
  assumes q: "quiet w" and v: "valid_order (length chunk) order"
  shows "\<exists>out. process_chunk w order chunk dir m = Inr out \<and> map fst out = chunk \<and>
           (\<forall>k<length chunk.
              process_image w (image_link (chunk ! (order ! k))) dir
                (entity_name (chunk ! (order ! k))) m
                = Inr (snd (out ! k)))"
proof -
  define fs where
    "fs = map (\<lambda>r. process_image w (image_link r) dir (entity_name r) m) chunk"
  have len: "length fs = length chunk" by (simp add: fs_def)
  have all: "\<forall>i<length fs. \<exists>r. fs ! i = Inr r"
    using process_image_quiet [OF q] by (simp add: fs_def)
  from v have lo: "length order = length chunk" and inr: "list_all (\<lambda>i. i < length fs) order"
    by (simp_all add: valid_order_def len)
  from gather_all [OF all inr] obtain rs where rs: "gather fs order = Inr rs"
    "length rs = length order" "\<forall>k<length order. fs ! (order ! k) = Inr (rs ! k)"
    by blast
  have out: "process_chunk w order chunk dir m = Inr (zip chunk rs)"
    using rs(1,2) lo by (simp add: process_chunk_def fs_def [symmetric])
  have m1: "map fst (zip chunk rs) = chunk" using rs(2) lo by simp
  have m2: "process_image w (image_link (chunk ! (order ! k))) dir
                (entity_name (chunk ! (order ! k))) m
                = Inr (snd (zip chunk rs ! k))" if k: "k < length chunk" for k
  proof -
    from inr k lo have "order ! k < length chunk" by (simp add: list_all_length len)
    then have "fs ! (order ! k) =
        process_image w (image_link (chunk ! (order ! k))) dir (entity_name (chunk ! (order ! k))) m"
      by (simp add: fs_def)
    moreover have "fs ! (order ! k) = Inr (rs ! k)" using rs(3) k lo by simp
    moreover have "snd (zip chunk rs ! k) = rs ! k" using k rs(2) lo by simp
    ultimately show ?thesis by simp
  qed
  show ?thesis using out m1 m2 by blast
qed

text \<open>
  An exception of preprocessing or of either engine, once the file is downloaded and loaded,
  leaves process_image, and then process_chunk.
\<close>

lemma process_image_propagates:
  assumes d: "download_image w url dir = Some p" and p: "p \<noteq> []"
    and i: "load_image w p = Some img"
    and r: "binarize w img = Inl e \<or>
            (\<exists>pre. binarize w img = Inr pre \<and>
               (readtext w pre = Inl e \<or>
                (\<exists>a. readtext w pre = Inr a \<and> image_to_string w pre = Inl e)))"
  shows "process_image w url dir n m = Inl e"
proof -
  have "predict w p [get_or_self m n] = Inl e"
    using i r by (auto simp: predict_def preprocess_image_def detect_text_def)
  with d p show ?thesis by (simp add: process_image_def)
qed

lemma process_chunk_propagates:
  assumes "process_image w (image_link r) dir (entity_name r) m = Inl e"
  shows "process_chunk w [0] [r] dir m = Inl e"
  using assms by (simp add: process_chunk_def)

lemma quiet_example: "quiet example_world"
  by (simp add: quiet_def example_world_def)

subsection \<open>The matcher: what a match consumes and captures\<close>

lemma many_consumes:
  "(p', cs') \<in> set (many a p cs) \<Longrightarrow> \<exists>w. cs = w @ cs' \<and> list_all (atom_ok a) w"
proof (induction a p cs rule: many.induct)
  case (1 a p)
  then show ?case by simp
next
  case (2 a p c cs)
  show ?case
  proof (cases "atom_ok a c \<and> (p', cs') \<in> set (many a (Some c) cs)")
    case True
    with 2 obtain w where "cs = w @ cs'" "list_all (atom_ok a) w" by blast
    with True have "c # cs = (c # w) @ cs' \<and> list_all (atom_ok a) (c # w)" by simp
    then show ?thesis by blast
  next
    case False
    with 2(2) have "cs' = c # cs" by (auto split: if_splits)
    then show ?thesis by simp
  qed
qed

lemma matches_consumes:
  "s' \<in> set (matches r s) \<Longrightarrow> \<exists>w. rest s = w @ rest s' \<and> w \<in> lang r"
proof (induction r arbitrary: s s')
  case Eps
  then show ?case by simp
next
  case (One a)
  show ?case
  proof (cases "rest s")
    case Nil
    with One show ?thesis by simp
  next
    case (Cons c cs)
    with One have "atom_ok a c" "s' = advance s c cs" by (auto split: if_splits)
    with Cons have "rest s = [c] @ rest s' \<and> [c] \<in> lang (One a)" by (simp add: advance_def)
    then show ?thesis by blast
  qed
next
  case (Many a)
  then show ?case by (auto dest: many_consumes)
next
  case (Seq r1 r2)
  from Seq.prems obtain s1 where s1: "s1 \<in> set (matches r1 s)" and s2: "s' \<in> set (matches r2 s1)"
    by auto
  from Seq.IH(1) [OF s1] obtain u where u: "rest s = u @ rest s1" "u \<in> lang r1" by blast
  from Seq.IH(2) [OF s2] obtain v where v: "rest s1 = v @ rest s'" "v \<in> lang r2" by blast
  from u v have "rest s = (u @ v) @ rest s' \<and> u @ v \<in> lang (Seq r1 r2)" by auto
  then show ?case by blast
next
  case (Alt r1 r2)
  from Alt.prems consider "s' \<in> set (matches r1 s)" | "s' \<in> set (matches r2 s)" by auto
  then show ?case
  proof cases
    case 1
    from Alt.IH(1) [OF 1] show ?thesis by auto
  next
    case 2
    from Alt.IH(2) [OF 2] show ?thesis by auto
  qed
next
  case (Group n r)
  from Group.prems obtain s2 where s2: "s2 \<in> set (matches r s)" "rest s' = rest s2" by auto
  from Group.IH [OF s2(1)] s2(2) show ?case by simp
next
  case WordB
  then show ?case by (auto split: if_splits)
qed

lemma matches_rest_subset: "s' \<in> set (matches r s) \<Longrightarrow> set (rest s') \<subseteq> set (rest s)"
  using matches_consumes by fastforce

subsection \<open>The alternatives of the voltage pattern spelled with a capital letter\<close>

lemma matches_Seq_cong:
  "(\<And>s'. s' \<in> set (matches r1 s) \<Longrightarrow> matches r2 s' = matches r2' s') \<Longrightarrow>
   matches (Seq r1 r2) s = matches (Seq r1 r2') s"
  by (simp cong: map_cong)

lemma lit_kV_fails: "CHR ''V'' \<notin> set (rest s) \<Longrightarrow> matches (lit [c, CHR ''V'']) s = []"
proof (cases "rest s")
  case Nil
  then show ?thesis by (simp add: lit_def)
next
  case (Cons x xs)
  assume "CHR ''V'' \<notin> set (rest s)"
  with Cons show ?thesis
    by (cases xs) (auto simp: lit_def advance_def)
qed

lemma voltage_alts_lower:
  assumes "CHR ''V'' \<notin> set (rest s)"
  shows "matches (alts (lit ''v'') [lit ''volt'', lit ''kV'', lit ''mV'']) s
       = matches (alts (lit ''v'') [lit ''volt'']) s"
  using lit_kV_fails [OF assms] by simp

lemma voltage_matches_lower:
  assumes "CHR ''V'' \<notin> set (rest s)"
  shows "matches voltage_re s = matches voltage_lower_re s"
proof -
  have "matches (Seq (alts (lit ''v'') [lit ''volt'', lit ''kV'', lit ''mV'']) r) s2
      = matches (Seq (alts (lit ''v'') [lit ''volt'']) r) s2"
    if "s1 \<in> set (matches (Group 1 number) s)" "s2 \<in> set (matches (Many Space) s1)" for s1 s2 r
  proof -
    from that assms have "CHR ''V'' \<notin> set (rest s2)"
      using matches_rest_subset by blast
    from voltage_alts_lower [OF this] show ?thesis by simp
  qed
  then show ?thesis
    unfolding voltage_re_def voltage_lower_re_def cat_def foldr.simps o_apply
    by (intro matches_Seq_cong) 
qed

lemma search_from_cong:
  "(\<And>s. set (rest s) \<subseteq> set tx \<Longrightarrow> matches r s = matches r' s) \<Longrightarrow>
   search_from r p tx = search_from r' p tx"
proof (induction tx arbitrary: p)
  case Nil
  then show ?case by simp
next
  case (Cons c cs)
  have "search_from r (Some c) cs = search_from r' (Some c) cs"
    by (rule Cons.IH) (simp add: Cons.prems subset_insertI2)
  moreover have "matches r \<lparr>prev = p, rest = c # cs, caps = \<lambda>_. None\<rparr>
      = matches r' \<lparr>prev = p, rest = c # cs, caps = \<lambda>_. None\<rparr>"
    by (rule Cons.prems) simp
  ultimately show ?case by (simp split: list.split)
qed

lemma lower_char_not_V: "lower_char c \<noteq> CHR ''V''"
proof
  assume "lower_char c = CHR ''V''"
  then have "(of_char (lower_char c) :: nat) = of_char CHR ''V''" by simp
  then show False by (auto simp: of_char_lower_char Let_def split: if_splits)
qed

lemma lower_no_V: "CHR ''V'' \<notin> set (lower s)"
proof
  assume "CHR ''V'' \<in> set (lower s)"
  then obtain c where "lower_char c = CHR ''V''" by (auto simp: lower_def)
  then show False using lower_char_not_V by simp
qed

lemma voltage_search_lower: "re_search voltage_re (lower s) = re_search voltage_lower_re (lower s)"
  unfolding re_search_def
proof (rule search_from_cong)
  fix st :: mstate
  assume "set (rest st) \<subseteq> set (lower s)"
  then have "CHR ''V'' \<notin> set (rest st)" using lower_no_V by blast
  then show "matches voltage_re st = matches voltage_lower_re st" by (rule voltage_matches_lower)
qed

lemma voltage_extract_lower: "extract_parameter s ''voltage'' = match_pattern voltage_lower_re s"
proof -
  have p: "parameter_patterns (lower ''voltage'') = Some voltage_re" by code_simp
  have n: "ngroups voltage_re = 1" "ngroups voltage_lower_re = 1" by code_simp+
  show ?thesis
    by (simp add: extract_parameter_def p match_pattern_def voltage_search_lower n
        split: option.split)
qed

subsection \<open>Where the captured groups of a match come from\<close>

lemma matches_took:
  assumes "s' \<in> set (matches r s)"
  shows "take (length (rest s) - length (rest s')) (rest s) \<in> lang r"
proof -
  from matches_consumes [OF assms] obtain w where "rest s = w @ rest s'" "w \<in> lang r" by blast
  then show ?thesis by simp
qed

lemma caps_origin:
  "s' \<in> set (matches r s) \<Longrightarrow> caps s' n = Some w \<Longrightarrow>
   caps s n = Some w \<or> (\<exists>r'. (n, r') \<in> subgroups r \<and> w \<in> lang r')"
proof (induction r arbitrary: s s')
  case Eps
  then show ?case by simp
next
  case (One a)
  then show ?case by (auto simp: advance_def split: list.splits if_splits)
next
  case (Many a)
  then show ?case by auto
next
  case (Seq r1 r2)
  from Seq.prems obtain s1 where s1: "s1 \<in> set (matches r1 s)" and s2: "s' \<in> set (matches r2 s1)"
    by auto
  from Seq.IH(2) [OF s2 Seq.prems(2)] Seq.IH(1) [OF s1] show ?case by auto
next
  case (Alt r1 r2)
  from Alt.prems consider "s' \<in> set (matches r1 s)" | "s' \<in> set (matches r2 s)" by auto
  then show ?case
  proof cases
    case 1
    from Alt.IH(1) [OF 1 Alt.prems(2)] show ?thesis by auto
  next
    case 2
    from Alt.IH(2) [OF 2 Alt.prems(2)] show ?thesis by auto
  qed
next
  case (Group k r)
  from Group.prems(1) obtain s2 where s2: "s2 \<in> set (matches r s)"
    and s': "s' = s2\<lparr>caps := (caps s2)(k \<mapsto> take (length (rest s) - length (rest s2)) (rest s))\<rparr>"
    by auto
  show ?case
  proof (cases "n = k")
    case True
    with s' Group.prems(2) have "w = take (length (rest s) - length (rest s2)) (rest s)" by simp
    with matches_took [OF s2] True show ?thesis by auto
  next
    case False
    with s' Group.prems(2) have "caps s2 n = Some w" by simp
    from Group.IH [OF s2 this] show ?thesis by auto
  qed
next
  case WordB
  then show ?case by (auto split: if_splits)
qed

lemma caps_sure:
  "s' \<in> set (matches r s) \<Longrightarrow> n \<in> sure r \<or> caps s n \<noteq> None \<Longrightarrow> caps s' n \<noteq> None"
proof (induction r arbitrary: s s')
  case Eps
  then show ?case by simp
next
  case (One a)
  then show ?case by (auto simp: advance_def split: list.splits if_splits)
next
  case (Many a)
  then show ?case by auto
next
  case (Seq r1 r2)
  from Seq.prems obtain s1 where s1: "s1 \<in> set (matches r1 s)" and s2: "s' \<in> set (matches r2 s1)"
    by auto
  show ?case
  proof (cases "n \<in> sure r2")
    case True
    with Seq.IH(2) [OF s2] show ?thesis by blast
  next
    case False
    with Seq.prems(2) have "n \<in> sure r1 \<or> caps s n \<noteq> None" by simp
    from Seq.IH(1) [OF s1 this] Seq.IH(2) [OF s2] show ?thesis by blast
  qed
next
  case (Alt r1 r2)
  from Alt.prems consider "s' \<in> set (matches r1 s)" | "s' \<in> set (matches r2 s)" by auto
  then show ?case
  proof cases
    case 1
    from Alt.IH(1) [OF 1] Alt.prems(2) show ?thesis by auto
  next
    case 2
    from Alt.IH(2) [OF 2] Alt.prems(2) show ?thesis by auto
  qed
next
  case (Group k r)
  from Group.prems(1) obtain s2 where s2: "s2 \<in> set (matches r s)"
    and s': "s' = s2\<lparr>caps := (caps s2)(k \<mapsto> take (length (rest s) - length (rest s2)) (rest s))\<rparr>"
    by auto
  show ?case
  proof (cases "n = k")
    case True
    with s' show ?thesis by simp
  next
    case False
    with Group.prems(2) have "n \<in> sure r \<or> caps s n \<noteq> None" by simp
    from Group.IH [OF s2 this] s' False show ?thesis by simp
  qed
next
  case WordB
  then show ?case by (auto split: if_splits)
qed

lemma search_from_match:
  "search_from r p tx = Some m \<Longrightarrow>
   \<exists>s. caps s = (\<lambda>_. None) \<and> m \<in> set (matches r s)"
proof (induction tx arbitrary: p)
  case Nil
  then have "m \<in> set (matches r \<lparr>prev = p, rest = [], caps = \<lambda>_. None\<rparr>)"
    by (auto split: list.splits)
  then show ?case by (metis mstate.select_convs(3))
next
  case (Cons c cs)
  show ?case
  proof (cases "matches r \<lparr>prev = p, rest = c # cs, caps = \<lambda>_. None\<rparr>")
    case Nil
    with Cons.prems have "search_from r (Some c) cs = Some m" by simp
    then show ?thesis by (rule Cons.IH)
  next
    case (Cons m' ms)
    with Cons.prems have "m \<in> set (matches r \<lparr>prev = p, rest = c # cs, caps = \<lambda>_. None\<rparr>)"
      by simp
    then show ?thesis by (metis mstate.select_convs(3))
  qed
qed

lemma group_of_match:
  assumes "re_search r tx = Some m" and "n \<in> sure r"
  shows "\<exists>w r'. caps m n = Some w \<and> (n, r') \<in> subgroups r \<and> w \<in> lang r'"
proof -
  from assms(1) obtain s where s: "caps s = (\<lambda>_. None)" "m \<in> set (matches r s)"
    unfolding re_search_def using search_from_match by blast
  from caps_sure [OF s(2)] assms(2) obtain w where w: "caps m n = Some w" by blast
  from caps_origin [OF s(2) w] s(1) show ?thesis using w by auto
qed

subsection \<open>The groups of the patterns of the table\<close>

lemma cat_simps: "cat [] = Eps" "cat (r # rs) = Seq r (cat rs)"
  by (simp_all add: cat_def)

lemma lit_simps: "lit [] = Eps" "lit (c # cs) = Seq (One (Lit c)) (lit cs)"
  by (simp_all add: lit_def)

lemma subgroups_lit: "subgroups (lit w) = {}"
  by (induction w) (simp_all add: lit_simps)

lemma sure_lit: "sure (lit w) = {}"
  by (induction w) (simp_all add: lit_simps)

lemma lang_lit: "lang (lit w) = {w}"
  by (induction w) (auto simp: lit_simps)

lemma no_groups:
  "subgroups number = {}" "subgroups weight_unit = {}" "subgroups length_unit = {}"
  "subgroups volume_unit = {}" "subgroups wattage_unit = {}" "subgroups max_weight_unit = {}"
  by (simp_all add: number_def weight_unit_def length_unit_def volume_unit_def wattage_unit_def
      max_weight_unit_def cat_simps subgroups_lit opt_def many1_def)

lemma table_subgroups:
  assumes "(t, p) \<in> set pattern_table" and "(n, r') \<in> subgroups p"
  shows "r' \<in> {number, weight_unit, length_unit, volume_unit, wattage_unit, max_weight_unit}"
  using assms
  by (auto simp: pattern_table_def voltage_re_def weight_re_def height_re_def volume_re_def
      wattage_re_def depth_re_def width_re_def max_weight_re_def cat_simps subgroups_lit opt_def
      no_groups)

lemma sure_patterns:
  "1 \<in> sure voltage_re"
  "1 \<in> sure weight_re \<and> 2 \<in> sure weight_re"
  "1 \<in> sure height_re \<and> 2 \<in> sure height_re"
  "1 \<in> sure volume_re \<and> 2 \<in> sure volume_re"
  "1 \<in> sure wattage_re \<and> 2 \<in> sure wattage_re"
  "1 \<in> sure depth_re \<and> 2 \<in> sure depth_re"
  "1 \<in> sure width_re \<and> 2 \<in> sure width_re"
  "1 \<in> sure max_weight_re \<and> 2 \<in> sure max_weight_re"
  by (simp_all add: voltage_re_def weight_re_def height_re_def volume_re_def
      wattage_re_def depth_re_def width_re_def max_weight_re_def cat_simps)

lemma table_sure:
  assumes "(t, p) \<in> set pattern_table"
  shows "1 \<in> sure p \<and> (ngroups p = 2 \<longrightarrow> 2 \<in> sure p)"
  using assms sure_patterns by (auto simp: pattern_table_def ngroups_patterns)

lemma digit_not_space: "isdecimal c \<Longrightarrow> \<not> isspace c"
  by (auto simp: isdecimal_def isspace_def Let_def)

lemma tight_digits:
  assumes "isdecimal c" and "list_all isdecimal ds"
  shows "tight (c # ds)"
proof -
  have "last (c # ds) \<in> set (c # ds)" by (rule last_in_set) simp
  with assms have "isdecimal (last (c # ds))" by (auto simp: list_all_iff)
  with assms show ?thesis by (simp add: tight_def digit_not_space)
qed

lemma tight_append: "tight u \<Longrightarrow> v = [] \<or> tight v \<Longrightarrow> tight (u @ v)"
  by (auto simp: tight_def)

lemma atom_ok_Digit: "atom_ok Digit = isdecimal"
  by (rule ext) simp

lemma tight_number: "w \<in> lang number \<Longrightarrow> tight w"
proof -
  assume "w \<in> lang number"
  then consider
      (whole) c ds where "w = c # ds" "isdecimal c" "list_all isdecimal ds"
    | (fraction) c ds c' ds' where "w = (c # ds) @ [CHR ''.''] @ (c' # ds')"
        "isdecimal c" "list_all isdecimal ds" "isdecimal c'" "list_all isdecimal ds'"
    by (auto simp: number_def cat_simps opt_def many1_def lang_lit atom_ok_Digit)
  then show ?thesis
  proof cases
    case whole
    then show ?thesis by (simp add: tight_digits)
  next
    case fraction
    have dot: "\<not> isspace CHR ''.''" by (simp add: isspace_def)
    from tight_digits [OF fraction(4,5)] dot have "tight ([CHR ''.''] @ (c' # ds'))"
      by (simp add: tight_def)
    then have "tight ((c # ds) @ [CHR ''.''] @ (c' # ds'))"
      using tight_digits [OF fraction(2,3)] by (intro tight_append) simp_all
    with fraction(1) show ?thesis by simp
  qed
qed

lemma tight_units:
  "w \<in> lang weight_unit \<Longrightarrow> tight w"
  "w \<in> lang length_unit \<Longrightarrow> tight w"
  "w \<in> lang volume_unit \<Longrightarrow> tight w"
  "w \<in> lang wattage_unit \<Longrightarrow> tight w"
  "w \<in> lang max_weight_unit \<Longrightarrow> tight w"
  by (auto simp: weight_unit_def length_unit_def volume_unit_def wattage_unit_def
      max_weight_unit_def cat_simps opt_def lang_lit tight_def isspace_def)

lemma table_group_tight:
  assumes "(t, p) \<in> set pattern_table" and "(n, r') \<in> subgroups p" and "w \<in> lang r'"
  shows "tight w"
  using table_subgroups [OF assms(1,2)] assms(3) tight_number tight_units by auto

lemma strip_tight: "tight w \<Longrightarrow> strip w = w"
proof -
  assume t: "tight w"
  then have 1: "dropWhile isspace w = w"
    by (simp add: tight_def dropWhile_eq_self_iff)
  from t have 2: "dropWhile isspace (rev w) = rev w"
    by (simp add: tight_def dropWhile_eq_self_iff hd_rev)
  show ?thesis by (simp add: strip_def 1 2)
qed

lemma tight_join: "tight v \<Longrightarrow> tight u \<Longrightarrow> tight (v @ '' '' @ u)"
  by (auto simp: tight_def)

lemma strip_value_only: "tight v \<Longrightarrow> strip (v @ '' '' @ []) = v"
proof -
  assume t: "tight v"
  then have 1: "dropWhile isspace (v @ '' '') = v @ '' ''"
    by (simp add: tight_def dropWhile_eq_self_iff)
  have 2: "isspace CHR '' ''" by (simp add: isspace_def)
  from t have 3: "dropWhile isspace (rev v) = rev v"
    by (simp add: tight_def dropWhile_eq_self_iff hd_rev)
  show ?thesis by (simp add: strip_def 1 2 3)
qed

lemma group_layout:
  assumes p: "parameter_patterns (lower t) = Some p" and m: "re_search p (lower s) = Some m"
  shows "\<exists>v. caps m 1 = Some v \<and> strip v = v \<and>
           (if ngroups p = 2
            then \<exists>u. caps m 2 = Some u \<and> strip u = u \<and>
                   extract_parameter s t = Inr (Some (v @ '' '' @ u))
            else extract_parameter s t = Inr (Some v))"
proof -
  from p have tab: "(lower t, p) \<in> set pattern_table"
    by (simp add: parameter_patterns_def map_of_SomeD)
  from table_sure [OF tab] have s1: "1 \<in> sure p" and s2: "ngroups p = 2 \<Longrightarrow> 2 \<in> sure p"
    by simp_all
  from group_of_match [OF m s1] obtain v r1 where v: "caps m 1 = Some v"
    "(1, r1) \<in> subgroups p" "v \<in> lang r1" by blast
  from table_group_tight [OF tab v(2,3)] have tv: "tight v" .
  show ?thesis
  proof (cases "ngroups p = 2")
    case True
    from group_of_match [OF m s2 [OF True]] obtain u r2 where u: "caps m 2 = Some u"
      "(2, r2) \<in> subgroups p" "u \<in> lang r2" by blast
    from table_group_tight [OF tab u(2,3)] have tu: "tight u" .
    have "extract_parameter s t = Inr (Some (v @ '' '' @ u))"
      using p m v(1) u(1) True strip_tight [OF tight_join [OF tv tu]]
      by (simp add: extract_parameter_def match_pattern_def fmt_def)
    with v(1) u(1) True strip_tight [OF tv] strip_tight [OF tu] show ?thesis by simp
  next
    case False
    from ngroups_table [OF tab] False have n: "ngroups p = 1" by simp
    have "extract_parameter s t = Inr (Some v)"
      using p m v(1) n strip_value_only [OF tv]
      by (simp add: extract_parameter_def match_pattern_def fmt_def)
    with v(1) False strip_tight [OF tv] show ?thesis by simp
  qed
qed

subsection \<open>A text whose only v is the one of a kV or mV\<close>

lemma number_last_digit:
  assumes "w \<in> lang number"
  shows "w \<noteq> [] \<and> isdecimal (last w)"
proof -
  have l: "isdecimal (last (c # ds))" if "isdecimal c" "list_all isdecimal ds" for c ds
  proof -
    have "last (c # ds) \<in> set (c # ds)" by (rule last_in_set) simp
    with that show ?thesis by (auto simp: list_all_iff)
  qed
  from assms consider
      (whole) c ds where "w = c # ds" "isdecimal c" "list_all isdecimal ds"
    | (fraction) c ds c' ds' where "w = (c # ds) @ [CHR ''.''] @ (c' # ds')"
        "isdecimal c'" "list_all isdecimal ds'"
    by (auto simp: number_def cat_simps opt_def many1_def lang_lit atom_ok_Digit)
  then show ?thesis
  proof cases
    case whole
    with l show ?thesis by simp
  next
    case fraction
    from l [OF fraction(2,3)] fraction(1) show ?thesis by simp
  qed
qed

lemma atom_ok_Space: "atom_ok Space = isspace"
  by (rule ext) simp

lemma matches_Seq_iff:
  "m \<in> set (matches (Seq r1 r2) s) \<longleftrightarrow> (\<exists>s1\<in>set (matches r1 s). m \<in> set (matches r2 s1))"
  by auto

lemma voltage_lower_needs_v:
  assumes "m \<in> set (matches voltage_lower_re s)"
  shows "\<exists>d sp tl. rest s = d @ sp @ CHR ''v'' # tl \<and> d \<in> lang number \<and> list_all isspace sp"
proof -
  from assms obtain s1 s2 s3 where s1: "s1 \<in> set (matches (Group 1 number) s)"
    and s2: "s2 \<in> set (matches (Many Space) s1)"
    and s3: "s3 \<in> set (matches (alts (lit ''v'') [lit ''volt'']) s2)"
    unfolding voltage_lower_re_def cat_simps matches_Seq_iff by blast
  from matches_consumes [OF s1] obtain d where d: "rest s = d @ rest s1" "d \<in> lang number"
    by auto
  from matches_consumes [OF s2] obtain sp where sp: "rest s1 = sp @ rest s2" "list_all isspace sp"
    by (auto simp: atom_ok_Space)
  from matches_consumes [OF s3] obtain u where u: "rest s2 = u @ rest s3" "u = ''v'' \<or> u = ''volt''"
    by (auto simp: lang_lit)
  from u obtain tl where "rest s2 = CHR ''v'' # tl" by auto
  with d sp show ?thesis by auto
qed

lemma voltage_lower_no_match:
  assumes t: "P @ [x, CHR ''v''] @ Q = pre @ rest s"
    and P: "CHR ''v'' \<notin> set P" and Q: "CHR ''v'' \<notin> set Q"
    and x: "\<not> isspace x" "\<not> isdecimal x" "x \<noteq> CHR ''v''"
  shows "matches voltage_lower_re s = []"
proof (rule ccontr)
  assume "matches voltage_lower_re s \<noteq> []"
  then obtain m where "m \<in> set (matches voltage_lower_re s)"
    by (cases "matches voltage_lower_re s") auto
  from voltage_lower_needs_v [OF this] obtain d sp tl where
    r: "rest s = d @ sp @ CHR ''v'' # tl" and d: "d \<in> lang number" and sp: "list_all isspace sp"
    by blast
  from x(3) P have xv: "CHR ''v'' \<notin> set (P @ [x])"
    by auto
  from t r have "(P @ [x]) @ CHR ''v'' # Q = (pre @ d @ sp) @ CHR ''v'' # tl" by simp
  with append_Cons_eq_iff [OF xv Q, of "pre @ d @ sp" tl] have e: "P @ [x] = pre @ d @ sp"
    by blast
  from number_last_digit [OF d] have dl: "d \<noteq> []" "isdecimal (last d)" by simp_all
  show False
  proof (cases "sp = []")
    case True
    with e dl(1) have "last d = x" by (metis append_Nil2 last_appendR last_snoc)
    with dl(2) x(2) show False by simp
  next
    case False
    with e have "last sp = x" by (metis append_assoc last_appendR last_snoc)
    moreover from False sp have "isspace (last sp)" by (simp add: list_all_iff)
    ultimately show False using x(1) by simp
  qed
qed

lemma search_from_None:
  "(\<And>s pre. tx = pre @ rest s \<Longrightarrow> matches r s = []) \<Longrightarrow> search_from r p tx = None"
proof (induction tx arbitrary: p)
  case Nil
  then have "matches r \<lparr>prev = p, rest = [], caps = \<lambda>_. None\<rparr> = []" by simp
  then show ?case by simp
next
  case (Cons c cs)
  have "matches r \<lparr>prev = p, rest = c # cs, caps = \<lambda>_. None\<rparr> = []"
    by (rule Cons.prems [of "[]"]) simp
  moreover have "search_from r (Some c) cs = None"
  proof (rule Cons.IH)
    fix s :: mstate and pre assume "cs = pre @ rest s"
    then have "c # cs = (c # pre) @ rest s" by simp
    then show "matches r s = []" by (rule Cons.prems)
  qed
  ultimately show ?case by simp
qed

lemma kv_no_result:
  assumes "CHR ''v'' \<notin> set (lower pre)" and "CHR ''v'' \<notin> set (lower post)"
    and a: "lower_char a = CHR ''k'' \<or> lower_char a = CHR ''m''" and b: "lower_char b = CHR ''v''"
  shows "extract_parameter (pre @ [a, b] @ post) ''voltage'' = Inr None"
proof -
  from a have x: "\<not> isspace (lower_char a)" "\<not> isdecimal (lower_char a)"
      "lower_char a \<noteq> CHR ''v''"
    by (auto simp: isspace_def isdecimal_def)
  have l: "lower (pre @ [a, b] @ post) = lower pre @ [lower_char a, CHR ''v''] @ lower post"
    using b by (simp add: lower_def)
  have "search_from voltage_lower_re None (lower (pre @ [a, b] @ post)) = None"
  proof (rule search_from_None)
    fix s :: mstate and p assume "lower (pre @ [a, b] @ post) = p @ rest s"
    with l have "lower pre @ [lower_char a, CHR ''v''] @ lower post = p @ rest s" by simp
    from voltage_lower_no_match [OF this assms(1,2) x] show "matches voltage_lower_re s = []" .
  qed
  then show ?thesis
    by (simp add: voltage_extract_lower match_pattern_def re_search_def)
qed

subsection \<open>Texts as code points\<close>

text \<open>
  On an 8-bit text the functions on code points are the functions on characters: the
  matcher takes the same steps, and extract_parameter_u returns what extract_parameter
  returns.
\<close>

lemma of_char_less_256: "(of_char c :: nat) < 256"
  by (metis of_char_mod_256 mod_less_divisor zero_less_numeral)

lemma isspace_u_of_char: "isspace_u (of_char c) = isspace c"
  by (simp add: isspace_u_def of_char_less_256)

lemma isdecimal_u_of_char: "isdecimal_u (of_char c) = isdecimal c"
  by (simp add: isdecimal_u_def of_char_less_256)

lemma isword_u_of_char: "isword_u (of_char c) = isword c"
  by (simp add: isword_u_def of_char_less_256)

lemma lower_cp_of_char: "lower_cp (of_char c) = [of_char (lower_char c)]"
  by (simp add: lower_cp_def of_char_less_256)

lemma lower_u_codes: "lower_u (codes s) = codes (lower s)"
  by (induction s) (simp_all add: lower_u_def codes_def lower_def lower_cp_of_char)

lemma codes_eq_iff: "codes a = codes b \<longleftrightarrow> a = b"
proof -
  have "inj (of_char :: char \<Rightarrow> nat)" by (rule injI) simp
  then show ?thesis unfolding codes_def by (simp add: inj_map_eq_map)
qed

lemma strip_u_codes: "strip_u (codes w) = codes (strip w)"
proof -
  have c: "isspace_u \<circ> of_char = isspace" by (rule ext) (simp add: isspace_u_of_char)
  show ?thesis
    by (simp add: strip_u_def strip_def codes_def dropWhile_map rev_map c)
qed

lemma atom_ok_u_of_char: "atom_ok_u a (of_char c) = atom_ok a c"
  by (cases a) (simp_all add: isspace_u_of_char isdecimal_u_of_char)

lemma many_u_codes:
  "many_u a (map_option of_char p) (codes cs)
     = map (\<lambda>(p, cs). (map_option of_char p, codes cs)) (many a p cs)"
  by (induction a p cs rule: many.induct) (simp_all add: codes_def atom_ok_u_of_char)

lemma at_boundary_u_codes:
  "at_boundary_u (map_option of_char p) (codes cs) = at_boundary p cs"
  by (simp add: at_boundary_u_def at_boundary_def codes_def isword_u_of_char
      split: option.split list.split)

lemma wide_sel:
  "prev_u (wide s) = map_option of_char (prev s)"
  "rest_u (wide s) = codes (rest s)"
  "caps_u (wide s) n = map_option codes (caps s n)"
  by (simp_all add: wide_def)

lemma matches_u_wide: "matches_u r (wide s) = map wide (matches r s)"
proof (induction r arbitrary: s)
  case Eps
  then show ?case by simp
next
  case (One a)
  show ?case
  proof (cases "rest s")
    case Nil
    then show ?thesis by (simp add: wide_sel codes_def)
  next
    case (Cons c cs)
    then show ?thesis
      by (simp add: wide_sel codes_def atom_ok_u_of_char) (simp add: wide_def advance_def codes_def)
  qed
next
  case (Many a)
  show ?case
    by (simp add: wide_sel many_u_codes split_def o_def) (simp add: wide_def)
next
  case (Seq r1 r2)
  then show ?case by (simp add: map_concat o_def)
next
  case (Alt r1 r2)
  then show ?case by simp
next
  case (Group n r)
  have "(wide s')\<lparr>caps_u := (caps_u (wide s'))(n \<mapsto>
            take (length (rest_u (wide s)) - length (rest_u (wide s'))) (rest_u (wide s)))\<rparr>
      = wide (s'\<lparr>caps := (caps s')(n \<mapsto> take (length (rest s) - length (rest s')) (rest s))\<rparr>)"
    for s'
    by (simp add: wide_def codes_def take_map fun_eq_iff)
  with Group show ?case by (simp add: o_def)
next
  case WordB
  then show ?case by (simp add: wide_sel at_boundary_u_codes)
qed

lemma wide_start:
  "\<lparr>prev_u = map_option of_char p, rest_u = codes tx, caps_u = \<lambda>_. None\<rparr>
     = wide \<lparr>prev = p, rest = tx, caps = \<lambda>_. None\<rparr>"
  by (simp add: wide_def)

lemma search_from_u_codes:
  "search_from_u r (map_option of_char p) (codes tx) = map_option wide (search_from r p tx)"
proof (induction tx arbitrary: p)
  case Nil
  show ?case
    using wide_start [of p "[]"]
    by (simp add: codes_def matches_u_wide split: list.split)
next
  case (Cons c cs)
  have "search_from_u r (Some (of_char c)) (map of_char cs)
      = map_option wide (search_from r (Some c) cs)"
    using Cons.IH [of "Some c"] by (simp add: codes_def)
  then show ?case
    using wide_start [of p "c # cs"]
    by (simp add: codes_def matches_u_wide split: list.split)
qed

lemma re_search_u_codes: "re_search_u r (codes tx) = map_option wide (re_search r tx)"
  using search_from_u_codes [of r None tx] by (simp add: re_search_u_def re_search_def)

lemma fmt_u_codes: "fmt_u (map_option codes g) = codes (fmt g)"
  by (cases g) (simp_all add: fmt_u_def fmt_def)

lemma codes_append: "codes (a @ b) = codes a @ codes b"
  by (simp add: codes_def)

lemma match_pattern_u_codes:
  "match_pattern_u p (codes s) = map_sum id (map_option codes) (match_pattern p s)"
proof (cases "re_search p (lower s)")
  case None
  then show ?thesis
    by (simp add: match_pattern_u_def match_pattern_def lower_u_codes re_search_u_codes)
next
  case (Some m)
  have "fmt_u (caps_u (wide m) 1) @ codes '' '' @ fmt_u (caps_u (wide m) 2)
      = codes (fmt (caps m 1) @ '' '' @ fmt (caps m 2))"
    by (simp add: wide_sel fmt_u_codes codes_def)
  then have 1: "strip_u (fmt_u (caps_u (wide m) 1) @ codes '' '' @ fmt_u (caps_u (wide m) 2))
      = codes (strip (fmt (caps m 1) @ '' '' @ fmt (caps m 2)))"
    by (simp only: strip_u_codes)
  have "fmt_u (caps_u (wide m) 1) @ codes '' '' @ []
      = codes (fmt (caps m 1) @ '' '' @ [])"
    by (simp add: wide_sel fmt_u_codes codes_def)
  then have 2: "strip_u (fmt_u (caps_u (wide m) 1) @ codes '' '' @ [])
      = codes (strip (fmt (caps m 1) @ '' '' @ []))"
    by (simp only: strip_u_codes)
  show ?thesis
    using Some 1 2
    by (simp add: match_pattern_u_def match_pattern_def lower_u_codes re_search_u_codes)
qed

lemma parameter_patterns_u_codes: "parameter_patterns_u (codes k) = parameter_patterns k"
  by (simp add: parameter_patterns_u_def parameter_patterns_def pattern_table_def codes_eq_iff)

lemma extract_parameter_u_codes:
  "extract_parameter_u (codes s) (codes t)
     = map_sum id (map_option codes) (extract_parameter s t)"
  by (simp add: extract_parameter_u_def extract_parameter_def lower_u_codes
      parameter_patterns_u_codes match_pattern_u_codes split: option.split)




section \<open>Properties\<close>

subsection \<open>C1: which span decides a parameter\<close>

text \<open>
  C1 says that the first span matching a requested type decides its value and that a
  resolved type is never resolved again. detect_parameters stores under the type's key at
  every span that yields a value, so a later span overwrites an earlier one: on the spans
  \<open>5 kg\<close>, \<open>7 kg\<close>, both of which match \<open>weight\<close>, the answer is the second.
\<close>

theorem detect_parameters_not_first_match:
  "extract_parameter ''5 kg'' ''weight'' = Inr (Some ''5 kg'') \<and>
   extract_parameter ''7 kg'' ''weight'' = Inr (Some ''7 kg'') \<and>
   detect_parameters [(None :: unit option, ''5 kg'', None :: unit option), (None, ''7 kg'', None)]
     [''weight''] = Inr [(''weight'', ''7 kg'')]"
  by code_simp

text \<open>
  C1, as the code has it: detect_parameters never raises, and for every span sequence and
  every requested type the dict holds the value of the last span that yields one for the
  type (none when no span does); types that were not requested are absent.
\<close>

theorem detect_parameters_last_match:
  "\<exists>d. detect_parameters spans ps = Inr d \<and>
     (\<forall>t. map_of d t = (if t \<in> set ps then last_hit t spans else None))"
proof -
  from scan_spans_map [of spans ps "[]"] obtain d where d: "scan_spans spans ps [] = Inr d"
    and m: "\<And>t. map_of d t =
        (if t \<in> set ps then (case last_hit t spans of None \<Rightarrow> map_of [] t | Some r \<Rightarrow> Some r)
         else map_of [] t)"
    by blast
  have "map_of d t = (if t \<in> set ps then last_hit t spans else None)" for t
    using m [of t] by (cases "last_hit t spans") simp_all
  with d show ?thesis by (simp add: detect_parameters_def)
qed

theorem detect_parameters_last_match_witness:
  "last_hit ''weight'' [(None :: unit option, ''5 kg'', None :: unit option), (None, ''7 kg'', None)]
     = Some ''7 kg'' \<and>
   (\<exists>d. detect_parameters [(None :: unit option, ''5 kg'', None :: unit option), (None, ''7 kg'', None)]
          [''weight''] = Inr d \<and>
        map_of d ''weight'' = Some ''7 kg'' \<and> map_of d ''height'' = None)"
proof -
  have l: "last_hit ''weight'' [(None :: unit option, ''5 kg'', None :: unit option), (None, ''7 kg'', None)]
     = Some ''7 kg''"
    by code_simp
  from detect_parameters_last_match
    [of "[(None :: unit option, ''5 kg'', None :: unit option), (None, ''7 kg'', None)]" "[''weight'']"]
  obtain d where d: "detect_parameters
      [(None :: unit option, ''5 kg'', None :: unit option), (None, ''7 kg'', None)] [''weight''] = Inr d"
    and m: "\<And>t. map_of d t = (if t \<in> set [''weight''] then
        last_hit t [(None :: unit option, ''5 kg'', None :: unit option), (None, ''7 kg'', None)] else None)"
    by blast
  have "map_of d ''weight'' = Some ''7 kg''" using m [of "''weight''"] l by simp
  moreover have "map_of d ''height'' = None" using m [of "''height''"] by simp
  ultimately show ?thesis using l d by blast
qed

subsection \<open>C2: the order of the results of a chunk\<close>

text \<open>
  C2 says that the result at position \<open>i\<close> is the result of row \<open>i\<close> whatever the order
  the tasks finish in. process_chunk appends the results in finishing order and stores
  that list as the column of the chunk. With two rows of which the second, whose download
  fails, finishes first, the first row is given the failure sentinel of the second and the
  second row the value read on the first row's image.
\<close>

theorem process_chunk_finishing_order:
  "valid_order 2 [1, 0] \<and>
   process_image example_world (image_link row_a) ''/content/images/'' (entity_name row_a)
     entity_mapping = Inr ''5 kg'' \<and>
   process_image example_world (image_link row_b) ''/content/images/'' (entity_name row_b)
     entity_mapping = Inr ''No result'' \<and>
   process_chunk example_world [1, 0] [row_a, row_b] ''/content/images/'' entity_mapping
     = Inr [(row_a, ''No result''), (row_b, ''5 kg'')]"
  by code_simp

subsection \<open>C3: errors of one row\<close>

text \<open>
  C3 says that every exception of a row becomes that row's sentinel and that the
  orchestrator never raises. Only download_image has a \<open>try\<close>: when engine A raises, the
  exception leaves process_image and then process_chunk.
\<close>

theorem process_chunk_raises:
  "process_image raising_world (image_link row_a) ''/content/images/'' (entity_name row_a)
     entity_mapping = Inl (Raised ''RuntimeError'') \<and>
   process_chunk raising_world [0] [row_a] ''/content/images/'' entity_mapping
     = Inl (Raised ''RuntimeError'')"
  by code_simp

text \<open>
  C3, as the code has it: a request that raises or answers another status than 200, and a
  body that cannot be written, give no path; a row with no path, or whose file does not
  load as an image, gets the sentinel \<open>No result\<close>; and when preprocessing and the two
  engines do not raise, process_chunk returns, for any finishing order, one result for
  each row.
\<close>

theorem acquisition_failures_give_sentinel:
  "(download_image w url dir = None \<longrightarrow> process_image w url dir n m = Inr ''No result'') \<and>
   (download_image w url dir = Some p \<and> load_image w p = None \<longrightarrow>
      process_image w url dir n m = Inr ''No result'') \<and>
   (http_get w url \<noteq> Inr 200 \<longrightarrow> download_image w url dir = None) \<and>
   (isl (save_body w url (path_join dir (basename url))) \<longrightarrow> download_image w url dir = None) \<and>
   (quiet w \<and> valid_order (length chunk) order \<longrightarrow>
      (\<exists>out. process_chunk w order chunk dir m = Inr out \<and> map fst out = chunk))"
proof -
  have 1: "download_image w url dir = None \<Longrightarrow> process_image w url dir n m = Inr ''No result''"
    by (simp add: process_image_def)
  have 2: "download_image w url dir = Some p \<Longrightarrow> load_image w p = None \<Longrightarrow>
      process_image w url dir n m = Inr ''No result''"
    by (simp add: process_image_def predict_def)
  have 3: "http_get w url \<noteq> Inr 200 \<Longrightarrow> download_image w url dir = None"
    by (auto simp: download_image_def Let_def split: sum.split)
  have 4: "isl (save_body w url (path_join dir (basename url))) \<Longrightarrow>
      download_image w url dir = None"
    by (auto simp: download_image_def Let_def split: sum.split)
  have 5: "quiet w \<Longrightarrow> valid_order (length chunk) order \<Longrightarrow>
      (\<exists>out. process_chunk w order chunk dir m = Inr out \<and> map fst out = chunk)"
    using process_chunk_quiet by blast
  show ?thesis using 1 2 3 4 5 by blast
qed

theorem acquisition_failures_give_sentinel_witness:
  "http_get example_world (image_link row_b) \<noteq> Inr 200 \<and>
   download_image example_world (image_link row_b) ''/content/images/'' = None \<and>
   process_image example_world (image_link row_b) ''/content/images/'' (entity_name row_b)
     entity_mapping = Inr ''No result'' \<and>
   download_image (example_world\<lparr>imread := (\<lambda>path. None)\<rparr>) (image_link row_a) ''/content/images/''
     = Some ''/content/images/a.jpg'' \<and>
   load_image (example_world\<lparr>imread := (\<lambda>path. None)\<rparr>) ''/content/images/a.jpg'' = None \<and>
   process_image (example_world\<lparr>imread := (\<lambda>path. None)\<rparr>) (image_link row_a) ''/content/images/''
     (entity_name row_a) entity_mapping = Inr ''No result'' \<and>
   isl (save_body (example_world\<lparr>save_body := (\<lambda>url path. Inl (Raised ''OSError''))\<rparr>)
     (image_link row_a) (path_join ''/content/images/'' (basename (image_link row_a)))) \<and>
   download_image (example_world\<lparr>save_body := (\<lambda>url path. Inl (Raised ''OSError''))\<rparr>)
     (image_link row_a) ''/content/images/'' = None \<and>
   quiet example_world \<and> valid_order (length [row_a, row_b]) [1, 0] \<and>
   (\<exists>out. process_chunk example_world [1, 0] [row_a, row_b] ''/content/images/'' entity_mapping
            = Inr out \<and> map fst out = [row_a, row_b])"
proof -
  have h: "http_get example_world (image_link row_b) \<noteq> Inr 200" by code_simp
  have v: "valid_order (length [row_a, row_b]) [1, 0]" by code_simp
  note t = acquisition_failures_give_sentinel
      [of example_world "image_link row_b" "''/content/images/''" "entity_name row_b"
        entity_mapping "[]" "[row_a, row_b]" "[1, 0]"]
  from t h have d: "download_image example_world (image_link row_b) ''/content/images/'' = None"
    by blast
  with t have p: "process_image example_world (image_link row_b) ''/content/images/''
      (entity_name row_b) entity_mapping = Inr ''No result''"
    by blast
  from t quiet_example v have c:
    "\<exists>out. process_chunk example_world [1, 0] [row_a, row_b] ''/content/images/'' entity_mapping
            = Inr out \<and> map fst out = [row_a, row_b]"
    by blast
  have d2: "download_image (example_world\<lparr>imread := (\<lambda>path. None)\<rparr>) (image_link row_a)
      ''/content/images/'' = Some ''/content/images/a.jpg''"
    by code_simp
  have l2: "load_image (example_world\<lparr>imread := (\<lambda>path. None)\<rparr>) ''/content/images/a.jpg'' = None"
    by (simp add: load_image_def)
  from acquisition_failures_give_sentinel
      [of "example_world\<lparr>imread := (\<lambda>path. None)\<rparr>" "image_link row_a" "''/content/images/''"
        "entity_name row_a" entity_mapping "''/content/images/a.jpg''" "[]" "[]"] d2 l2
  have p2: "process_image (example_world\<lparr>imread := (\<lambda>path. None)\<rparr>) (image_link row_a)
      ''/content/images/'' (entity_name row_a) entity_mapping = Inr ''No result''"
    by blast
  have s3: "isl (save_body (example_world\<lparr>save_body := (\<lambda>url path. Inl (Raised ''OSError''))\<rparr>)
     (image_link row_a) (path_join ''/content/images/'' (basename (image_link row_a))))"
    by simp
  from acquisition_failures_give_sentinel
      [of "example_world\<lparr>save_body := (\<lambda>url path. Inl (Raised ''OSError''))\<rparr>"
        "image_link row_a" "''/content/images/''" "entity_name row_a" entity_mapping "[]" "[]" "[]"]
    s3
  have d3: "download_image (example_world\<lparr>save_body := (\<lambda>url path. Inl (Raised ''OSError''))\<rparr>)
     (image_link row_a) ''/content/images/'' = None"
    by blast
  from h d p d2 l2 p2 s3 d3 quiet_example v c show ?thesis by blast
qed

subsection \<open>C4: the fused span sequence\<close>

text \<open>
  C4 says that blank spans are dropped from both engines. detect_text filters the lines of
  engine B only: a blank span of engine A is in the result.
\<close>

theorem detect_text_keeps_blank_span:
  "detect_text blank_world ''x'' = Inr [(Some (), '' '', Some ())] \<and> strip '' '' = []"
  by code_simp

text \<open>
  C4, as the code has it: the result is every span of engine A, in A's order, followed by
  the lines of engine B's text, in line order, that are not made of whitespace only.
\<close>

theorem detect_text_fusion:
  assumes "readtext w img = Inr a" and "image_to_string w img = Inr b"
  shows "detect_text w img =
     Inr (map (\<lambda>(box, t, conf). (Some box, t, Some conf)) a @
          map (\<lambda>t. (None, t, None))
            (filter (\<lambda>t. \<not> list_all isspace t) (split_on CHR 0x0A b)))"
  using assms by (simp add: detect_text_def strip_empty_iff)

theorem detect_text_fusion_witness:
  "readtext blank_world ''/content/images/a.jpg'' = Inr [((), '' '', ())] \<and>
   image_to_string blank_world ''/content/images/a.jpg''
     = Inr (''Net Wt'' @ [CHR 0x0A] @ ''5 kg'' @ [CHR 0x0A]) \<and>
   detect_text blank_world ''/content/images/a.jpg'' =
     Inr [(Some (), '' '', Some ()), (None, ''Net Wt'', None), (None, ''5 kg'', None)]"
proof -
  have r: "readtext blank_world ''/content/images/a.jpg'' = Inr [((), '' '', ())]"
    by code_simp
  have i: "image_to_string blank_world ''/content/images/a.jpg''
      = Inr (''Net Wt'' @ [CHR 0x0A] @ ''5 kg'' @ [CHR 0x0A])"
    by code_simp
  have f: "filter (\<lambda>t. \<not> list_all isspace t)
      (split_on CHR 0x0A (''Net Wt'' @ [CHR 0x0A] @ ''5 kg'' @ [CHR 0x0A])) = [''Net Wt'', ''5 kg'']"
    by code_simp
  from detect_text_fusion [OF r i] r i f show ?thesis by simp
qed

subsection \<open>C5: letter case of the text\<close>




subsection \<open>C6: the weight scenario and the layout of the groups\<close>

text \<open>
  C6: on the spans \<open>package weight 2.5kg net\<close>, \<open>other text\<close> and the requested type
  \<open>weight\<close>, detect_parameters returns exactly the dict with \<open>weight\<close> at \<open>2.5 kg\<close>.
  In general, for every type with a pattern and every text the pattern matches, the first
  group is set and has no whitespace at its ends; a pattern with two groups gives the two
  groups joined by one space, and a pattern with one group gives the bare value.
\<close>

theorem weight_scenario_and_group_layout:
  "detect_parameters
     [(None :: unit option, ''package weight 2.5kg net'', None :: unit option),
      (None, ''other text'', None)] [''weight'']
     = Inr [(''weight'', ''2.5 kg'')] \<and>
   (parameter_patterns (lower t) = Some p \<and> re_search p (lower s) = Some m \<longrightarrow>
      (\<exists>v. caps m 1 = Some v \<and> strip v = v \<and>
         (if ngroups p = 2
          then \<exists>u. caps m 2 = Some u \<and> strip u = u \<and>
                 extract_parameter s t = Inr (Some (v @ '' '' @ u))
          else extract_parameter s t = Inr (Some v))))"
proof -
  have "detect_parameters
     [(None :: unit option, ''package weight 2.5kg net'', None :: unit option),
      (None, ''other text'', None)] [''weight'']
     = Inr [(''weight'', ''2.5 kg'')]"
    by code_simp
  then show ?thesis using group_layout by blast
qed

theorem weight_scenario_and_group_layout_witness:
  "parameter_patterns (lower ''Weight'') = Some weight_re \<and>
   \<not> Option.is_none (re_search weight_re (lower ''Net 2.5 KG'')) \<and>
   ngroups weight_re = 2 \<and>
   (\<exists>v u. caps (the (re_search weight_re (lower ''Net 2.5 KG''))) 1 = Some v \<and> strip v = v \<and>
      caps (the (re_search weight_re (lower ''Net 2.5 KG''))) 2 = Some u \<and> strip u = u \<and>
      extract_parameter ''Net 2.5 KG'' ''Weight'' = Inr (Some (v @ '' '' @ u))) \<and>
   extract_parameter ''Net 2.5 KG'' ''Weight'' = Inr (Some ''2.5 kg'') \<and>
   parameter_patterns (lower ''voltage'') = Some voltage_re \<and>
   \<not> Option.is_none (re_search voltage_re (lower ''AC 230 Volts'')) \<and>
   ngroups voltage_re = 1 \<and>
   (\<exists>v. caps (the (re_search voltage_re (lower ''AC 230 Volts''))) 1 = Some v \<and> strip v = v \<and>
      extract_parameter ''AC 230 Volts'' ''voltage'' = Inr (Some v)) \<and>
   extract_parameter ''AC 230 Volts'' ''voltage'' = Inr (Some ''230'')"
proof -
  have p: "parameter_patterns (lower ''Weight'') = Some weight_re" by code_simp
  have n: "\<not> Option.is_none (re_search weight_re (lower ''Net 2.5 KG''))" by code_simp
  then have m: "re_search weight_re (lower ''Net 2.5 KG'')
      = Some (the (re_search weight_re (lower ''Net 2.5 KG'')))"
    by (simp add: Option.is_none_def)
  have g: "ngroups weight_re = 2" by code_simp
  have e: "extract_parameter ''Net 2.5 KG'' ''Weight'' = Inr (Some ''2.5 kg'')" by code_simp
  from weight_scenario_and_group_layout
    [of "''Weight''" weight_re "''Net 2.5 KG''" "the (re_search weight_re (lower ''Net 2.5 KG''))"]
    p m g
  have w: "\<exists>v u. caps (the (re_search weight_re (lower ''Net 2.5 KG''))) 1 = Some v \<and> strip v = v \<and>
      caps (the (re_search weight_re (lower ''Net 2.5 KG''))) 2 = Some u \<and> strip u = u \<and>
      extract_parameter ''Net 2.5 KG'' ''Weight'' = Inr (Some (v @ '' '' @ u))"
    by auto
  have p': "parameter_patterns (lower ''voltage'') = Some voltage_re" by code_simp
  have n': "\<not> Option.is_none (re_search voltage_re (lower ''AC 230 Volts''))" by code_simp
  then have m': "re_search voltage_re (lower ''AC 230 Volts'')
      = Some (the (re_search voltage_re (lower ''AC 230 Volts'')))"
    by (simp add: Option.is_none_def)
  have g': "ngroups voltage_re = 1" by code_simp
  have e': "extract_parameter ''AC 230 Volts'' ''voltage'' = Inr (Some ''230'')" by code_simp
  from weight_scenario_and_group_layout
    [of "''voltage''" voltage_re "''AC 230 Volts''"
      "the (re_search voltage_re (lower ''AC 230 Volts''))"]
    p' m' g'
  have w': "\<exists>v. caps (the (re_search voltage_re (lower ''AC 230 Volts''))) 1 = Some v \<and>
      strip v = v \<and> extract_parameter ''AC 230 Volts'' ''voltage'' = Inr (Some v)"
    by auto
  from p n g w e p' n' g' w' e' show ?thesis by blast
qed

subsection \<open>C7: a type with no pattern\<close>

text \<open>
  C7 says that a requested type with no entry in the pattern table gives no result. The
  table is looked up under the lowercased type name: \<open>WEIGHT\<close> is not a key of the table,
  and extraction for it answers with the pattern of \<open>weight\<close>.
\<close>

theorem extract_parameter_uppercase_type:
  "parameter_patterns ''WEIGHT'' = None \<and>
   extract_parameter ''5 kg'' ''WEIGHT'' = Inr (Some ''5 kg'')"
  by code_simp

text \<open>
  C7, as the code has it: for every type whose lowercased name has no entry in the pattern
  table and every text, extract_parameter returns None and does not raise.
\<close>

theorem extract_parameter_unknown_type:
  "parameter_patterns (lower t) = None \<Longrightarrow> extract_parameter s t = Inr None"
  by (simp add: extract_parameter_def)

theorem extract_parameter_unknown_type_witness:
  "parameter_patterns (lower ''Colour'') = None \<and> extract_parameter ''5 kg'' ''Colour'' = Inr None"
proof -
  have h: "parameter_patterns (lower ''Colour'') = None" by code_simp
  from extract_parameter_unknown_type [OF h, of "''5 kg''"] h show ?thesis by simp
qed

subsection \<open>C8: no spans\<close>

text \<open>
  C8: for every list of requested types, detect_parameters on the empty span sequence
  returns the empty dict.
\<close>

theorem detect_parameters_no_spans: "detect_parameters [] ps = Inr []"
  by (simp add: detect_parameters_def)

subsection \<open>C9: from entity name to parameter type\<close>



subsection \<open>C10: the kV and mV alternatives of the voltage pattern\<close>

text \<open>
  C10: the alternatives \<open>kV\<close> and \<open>mV\<close> of the voltage pattern never match. On every
  text, extraction for \<open>voltage\<close> is extraction with the pattern that has the
  alternatives \<open>v\<close> and \<open>volt\<close> only; and a text whose only letter v, in either case, is
  the second letter of a \<open>kV\<close> or \<open>mV\<close> in any casing gives no result, as \<open>120 kV\<close>
  and \<open>3.3mV\<close> do, while \<open>120 v\<close> gives \<open>120\<close>.
\<close>

theorem voltage_kv_mv_unreachable:
  "extract_parameter s ''voltage'' = match_pattern voltage_lower_re s \<and>
   (CHR ''v'' \<notin> set (lower pre) \<and> CHR ''v'' \<notin> set (lower post) \<and>
    (lower_char a = CHR ''k'' \<or> lower_char a = CHR ''m'') \<and> lower_char b = CHR ''v'' \<longrightarrow>
      extract_parameter (pre @ [a, b] @ post) ''voltage'' = Inr None) \<and>
   extract_parameter ''120 kV'' ''voltage'' = Inr None \<and>
   extract_parameter ''3.3mV'' ''voltage'' = Inr None \<and>
   extract_parameter ''120 v'' ''voltage'' = Inr (Some ''120'')"
proof -
  have 1: "extract_parameter ''120 kV'' ''voltage'' = Inr None" by code_simp
  have 2: "extract_parameter ''3.3mV'' ''voltage'' = Inr None" by code_simp
  have 3: "extract_parameter ''120 v'' ''voltage'' = Inr (Some ''120'')" by code_simp
  show ?thesis using voltage_extract_lower kv_no_result 1 2 3 by blast
qed

theorem voltage_kv_mv_unreachable_witness:
  "CHR ''v'' \<notin> set (lower ''Input: 240 '') \<and> CHR ''v'' \<notin> set (lower '' max'') \<and>
   lower_char CHR ''K'' = CHR ''k'' \<and> lower_char CHR ''V'' = CHR ''v'' \<and>
   extract_parameter (''Input: 240 '' @ [CHR ''K'', CHR ''V''] @ '' max'') ''voltage'' = Inr None \<and>
   match_pattern voltage_lower_re ''Input: 240 KV max'' = Inr None"
proof -
  have a: "CHR ''v'' \<notin> set (lower ''Input: 240 '')" by code_simp
  have b: "CHR ''v'' \<notin> set (lower '' max'')" by code_simp
  have c: "lower_char CHR ''K'' = CHR ''k''" by code_simp
  have d: "lower_char CHR ''V'' = CHR ''v''" by code_simp
  note t = voltage_kv_mv_unreachable [of "''Input: 240 KV max''" "''Input: 240 ''" "'' max''"
      "CHR ''K''" "CHR ''V''"]
  from t a b c d
  have e: "extract_parameter (''Input: 240 '' @ [CHR ''K'', CHR ''V''] @ '' max'') ''voltage'' = Inr None"
    by blast
  then have "extract_parameter ''Input: 240 KV max'' ''voltage'' = Inr None" by simp
  with t have "match_pattern voltage_lower_re ''Input: 240 KV max'' = Inr None" by simp
  with a b c d e show ?thesis by blast
qed

end
